theory Spec2Isabelle
  imports Main "HOL-Library.Word" "HOL-Library.Multiset"
begin

section \<open>Entities, type identifiers and the missing headers\<close>

text \<open>
  The entity-component core of the engine is declared in \<^verbatim>\<open>polymer-ecs.hpp\<close>,
  \<^verbatim>\<open>polymer-typeid.hpp\<close> and \<^verbatim>\<open>math-core.hpp\<close>; only their users are among the
  sources. An entity is an unsigned 64-bit identifier, a type identifier is a number.
\<close>

type_synonym entity = "64 word"

type_synonym poly_typeid = nat

text \<open>
  Modelled from the spec: \<^verbatim>\<open>kInvalidEntity\<close> is declared in \<^verbatim>\<open>polymer-ecs.hpp\<close>, which
  is not among the sources. The spec reserves one sentinel value for "no entity" (0 or the
  maximum); 0 is taken here. No proof below looks at the value, except through
  the evaluation of concrete scenarios.
\<close>

definition kInvalidEntity :: entity where
  "kInvalidEntity = 0"

text \<open>
  Modelled from the spec: \<^verbatim>\<open>kAllEntities\<close> is declared in \<^verbatim>\<open>polymer-ecs.hpp\<close>, which is
  not among the sources. It is the "destroy all" signal of the orchestrator; the largest
  identifier is taken here.
\<close>

definition kAllEntities :: entity where
  "kAllEntities = - 1"

text \<open>
  What a C++ call does besides returning: a \<^verbatim>\<open>throw std::invalid_argument(msg)\<close> is the
  value \<open>Inl (invalid_argument msg)\<close> of a sum type; a recursion that never returns is
  \<open>None\<close> of an option type.
\<close>

datatype exn = invalid_argument string

text \<open>
  The loop \<^verbatim>\<open>for (auto & c : xs) f(c)\<close> over a call that may not return: the state is
  threaded through the calls in list order, and the loop returns only if every call does.
\<close>

fun for_each :: "('a \<Rightarrow> 's \<Rightarrow> 's option) \<Rightarrow> 'a list \<Rightarrow> 's \<Rightarrow> 's option" where
  "for_each f [] s = Some s"
| "for_each f (x # xs) s = (case f x s of None \<Rightarrow> None | Some s' \<Rightarrow> for_each f xs s')"

section \<open>The example systems (engine-ecs.cpp)\<close>

record base_component =
  get_entity :: entity

record 'f physics_component = base_component +
  p_value1 :: 'f
  p_value2 :: 'f
  p_value3 :: 'f

record 'f render_component = base_component +
  r_value1 :: 'f
  r_value2 :: 'f
  r_value3 :: 'f

text \<open>
  \<^verbatim>\<open>ex_system_one\<close>: the constant \<^verbatim>\<open>c1 = get_typeid<physics_component>()\<close> and the map
  \<^verbatim>\<open>components\<close>. The type-erased \<^verbatim>\<open>void * data\<close> is the component it points to.
\<close>

record 'f ex_system_one =
  c1 :: poly_typeid
  one_components :: "entity \<rightharpoonup> 'f physics_component"

record 'f ex_system_two =
  c2 :: poly_typeid
  two_components :: "entity \<rightharpoonup> 'f render_component"

text \<open>
  \<^verbatim>\<open>ex_system_one::create\<close>: the component built for \<open>e\<close> is overwritten by the copy of
  \<^verbatim>\<open>*data\<close> before it is stored under \<open>e\<close>.
\<close>

definition ex_system_one_create ::
  "'f ex_system_one \<Rightarrow> entity \<Rightarrow> poly_typeid \<Rightarrow> 'f physics_component
     \<Rightarrow> bool \<times> 'f ex_system_one" where
  "ex_system_one_create sys e hash data =
     (if hash \<noteq> c1 sys then (False, sys)
      else (True, sys\<lparr>one_components := (one_components sys)(e \<mapsto> data)\<rparr>))"

definition ex_system_two_create ::
  "'f ex_system_two \<Rightarrow> entity \<Rightarrow> poly_typeid \<Rightarrow> 'f render_component
     \<Rightarrow> bool \<times> 'f ex_system_two" where
  "ex_system_two_create sys e hash data =
     (if hash \<noteq> c2 sys then (False, sys)
      else (True, sys\<lparr>two_components := (two_components sys)(e \<mapsto> data)\<rparr>))"

section \<open>The transform system (engine-ecs.cpp)\<close>

record ('p, 'v) scene_graph_component = base_component +
  local_pose :: 'p
  local_scale :: 'v
  parent :: entity
  children :: "entity list"

record 'p world_transform_component = base_component +
  world_pose :: 'p

text \<open>
  \<^verbatim>\<open>polymer::Pose\<close>, its \<^verbatim>\<open>operator*\<close> and \<^verbatim>\<open>float3\<close> come from \<^verbatim>\<open>math-core.hpp\<close>,
  which is not among the sources: the composition of poses and the default-constructed
  values are parameters of the model.
\<close>

record ('p, 'v) math_core =
  pose_mul :: "'p \<Rightarrow> 'p \<Rightarrow> 'p"
  pose_default :: 'p
  float3_default :: 'v

record ('p, 'v) transform_system =
  scene_graph_transforms :: "entity \<rightharpoonup> ('p, 'v) scene_graph_component"
  world_transforms :: "entity \<rightharpoonup> 'p world_transform_component"

text \<open>
  The constructors \<^verbatim>\<open>scene_graph_component(e)\<close> and \<^verbatim>\<open>world_transform_component(e)\<close>;
  the default constructors are those of an entity-less component.
\<close>

definition new_scene_graph_component ::
  "('p, 'v) math_core \<Rightarrow> entity \<Rightarrow> ('p, 'v) scene_graph_component" where
  "new_scene_graph_component M e =
     \<lparr>get_entity = e, local_pose = pose_default M, local_scale = float3_default M,
      parent = kInvalidEntity, children = []\<rparr>"

definition new_world_transform_component ::
  "('p, 'v) math_core \<Rightarrow> entity \<Rightarrow> 'p world_transform_component" where
  "new_world_transform_component M e = \<lparr>get_entity = e, world_pose = pose_default M\<rparr>"

text \<open>
  \<^verbatim>\<open>std::unordered_map::operator[]\<close>: a key that is absent is first inserted with a
  default-constructed value. The result is the value under the key and the map after
  the call.
\<close>

definition scene_graph_at ::
  "('p, 'v) math_core \<Rightarrow> ('p, 'v) transform_system \<Rightarrow> entity
     \<Rightarrow> ('p, 'v) scene_graph_component \<times> ('p, 'v) transform_system" where
  "scene_graph_at M s e =
     (case scene_graph_transforms s e of
        Some node \<Rightarrow> (node, s)
      | None \<Rightarrow>
          (new_scene_graph_component M kInvalidEntity,
           s\<lparr>scene_graph_transforms :=
               (scene_graph_transforms s)(e \<mapsto> new_scene_graph_component M kInvalidEntity)\<rparr>))"

definition world_at ::
  "('p, 'v) math_core \<Rightarrow> ('p, 'v) transform_system \<Rightarrow> entity
     \<Rightarrow> 'p world_transform_component \<times> ('p, 'v) transform_system" where
  "world_at M s e =
     (case world_transforms s e of
        Some w \<Rightarrow> (w, s)
      | None \<Rightarrow>
          (new_world_transform_component M kInvalidEntity,
           s\<lparr>world_transforms :=
               (world_transforms s)(e \<mapsto> new_world_transform_component M kInvalidEntity)\<rparr>))"

text \<open>Assignments through the references that \<^verbatim>\<open>operator[]\<close> returned.\<close>

definition set_world_pose ::
  "('p, 'v) transform_system \<Rightarrow> entity \<Rightarrow> 'p \<Rightarrow> ('p, 'v) transform_system" where
  "set_world_pose s e p =
     s\<lparr>world_transforms :=
         (world_transforms s)(e := map_option (\<lambda>w. w\<lparr>world_pose := p\<rparr>) (world_transforms s e))\<rparr>"

definition update_node ::
  "('p, 'v) transform_system \<Rightarrow> entity
     \<Rightarrow> (('p, 'v) scene_graph_component \<Rightarrow> ('p, 'v) scene_graph_component)
     \<Rightarrow> ('p, 'v) transform_system" where
  "update_node s e f =
     s\<lparr>scene_graph_transforms :=
         (scene_graph_transforms s)(e := map_option f (scene_graph_transforms s e))\<rparr>"

text \<open>
  The body of \<^verbatim>\<open>recalculate_world_transform\<close> before its loop: both records of the
  entity are looked up with \<^verbatim>\<open>operator[]\<close>, and the world pose is the local pose, composed
  with the \<^emph>\<open>local\<close> pose of the parent when there is one.
\<close>

definition recalculate_node ::
  "('p, 'v) math_core \<Rightarrow> ('p, 'v) transform_system \<Rightarrow> entity
     \<Rightarrow> ('p, 'v) scene_graph_component \<times> ('p, 'v) transform_system" where
  "recalculate_node M s child =
     (let (node, s1) = scene_graph_at M s child;
          (world_xform, s2) = world_at M s1 child
      in if parent node \<noteq> kInvalidEntity
         then (let (parent_node, s3) = scene_graph_at M s2 (parent node)
               in (node, set_world_pose s3 child
                           (pose_mul M (local_pose node) (local_pose parent_node))))
         else (node, set_world_pose s2 child (local_pose node)))"

text \<open>
  \<^verbatim>\<open>recalculate_world_transform\<close> calls itself for every child. Nothing bounds the
  depth of the recursion: on a cyclic children relation it never returns. The first argument
  bounds the depth of the call stack, and \<open>None\<close> says that the bound was hit. The second
  component of the state is the sequence of entities whose world pose has been assigned so
  far, in the order of the assignments: the call assigns the pose of its entity, then goes
  through the children.
\<close>

fun recalculate_world_transform ::
  "('p, 'v) math_core \<Rightarrow> nat \<Rightarrow> ('p, 'v) transform_system \<times> entity list \<Rightarrow> entity
     \<Rightarrow> (('p, 'v) transform_system \<times> entity list) option" where
  "recalculate_world_transform M 0 u child = None"
| "recalculate_world_transform M (Suc n) u child =
     (let (node, s1) = recalculate_node M (fst u) child
      in for_each (\<lambda>c t. recalculate_world_transform M n t c) (children node)
           (s1, snd u @ [child]))"

text \<open>
  \<^verbatim>\<open>destroy_recursive\<close>: the children first, then the two \<^verbatim>\<open>erase\<close> calls for the entity
  itself. The second component of the state is the sequence of entities erased so far, in
  the order of the \<^verbatim>\<open>erase\<close> calls.
\<close>

definition erase_entity ::
  "('p, 'v) transform_system \<Rightarrow> entity \<Rightarrow> ('p, 'v) transform_system" where
  "erase_entity s e =
     s\<lparr>world_transforms := (world_transforms s)(e := None),
       scene_graph_transforms := (scene_graph_transforms s)(e := None)\<rparr>"

fun destroy_recursive ::
  "('p, 'v) math_core \<Rightarrow> nat \<Rightarrow> ('p, 'v) transform_system \<times> entity list \<Rightarrow> entity
     \<Rightarrow> (('p, 'v) transform_system \<times> entity list) option" where
  "destroy_recursive M 0 sl child = None"
| "destroy_recursive M (Suc n) sl child =
     (let (node, s1) = scene_graph_at M (fst sl) child
      in case for_each (\<lambda>c t. destroy_recursive M n t c) (children node) (s1, snd sl) of
           None \<Rightarrow> None
         | Some (s2, erased) \<Rightarrow> Some (erase_entity s2 child, erased @ [child]))"

text \<open>\<^verbatim>\<open>bool create(entity e, poly_typeid hash, void * data)\<close> of the transform system.\<close>

definition transform_system_create_erased ::
  "('p, 'v) transform_system \<Rightarrow> entity \<Rightarrow> poly_typeid \<Rightarrow> 'd
     \<Rightarrow> bool \<times> ('p, 'v) transform_system" where
  "transform_system_create_erased s e hash data = (True, s)"

text \<open>The types the constructor registers the transform system for.\<close>

datatype component_type =
    T_physics_component | T_render_component
  | T_scene_graph_component | T_world_transform_component
  | T_mesh_component | T_material_component
  | T_point_light_component | T_directional_light_component

definition transform_system_types :: "(component_type \<Rightarrow> poly_typeid) \<Rightarrow> poly_typeid list" where
  "transform_system_types get_typeid =
     [get_typeid T_scene_graph_component, get_typeid T_world_transform_component]"

text \<open>\<^verbatim>\<open>bool create(entity e, const Pose local_pose, const float3 local_scale)\<close>.\<close>

definition create ::
  "('p, 'v) math_core \<Rightarrow> nat \<Rightarrow> ('p, 'v) transform_system \<Rightarrow> entity \<Rightarrow> 'p \<Rightarrow> 'v
     \<Rightarrow> (bool \<times> ('p, 'v) transform_system) option" where
  "create M n s e lp ls =
     (let s1 = s\<lparr>scene_graph_transforms :=
                   (scene_graph_transforms s)(e \<mapsto> new_scene_graph_component M e)\<rparr>;
          s2 = update_node s1 e (\<lambda>node. node\<lparr>local_pose := lp\<rparr>);
          s3 = update_node s2 e (\<lambda>node. node\<lparr>local_scale := ls\<rparr>);
          s4 = s3\<lparr>world_transforms :=
                   (world_transforms s3)(e \<mapsto> new_world_transform_component M e)\<rparr>
      in map_option (\<lambda>(t, visited). (True, t)) (recalculate_world_transform M n (s4, []) e))"

text \<open>
  The read queries. Each returns its answer together with the state it leaves: they look
  keys up with \<^verbatim>\<open>find\<close>, which inserts nothing. A null pointer is \<open>None\<close>.
\<close>

definition has_transform ::
  "('p, 'v) transform_system \<Rightarrow> entity \<Rightarrow> bool \<times> ('p, 'v) transform_system" where
  "has_transform s e = (if scene_graph_transforms s e \<noteq> None then (True, s) else (False, s))"

definition get_local_transform ::
  "('p, 'v) transform_system \<Rightarrow> entity
     \<Rightarrow> ('p, 'v) scene_graph_component option \<times> ('p, 'v) transform_system" where
  "get_local_transform s e =
     (if e = kInvalidEntity then (None, s)
      else case scene_graph_transforms s e of Some node \<Rightarrow> (Some node, s) | None \<Rightarrow> (None, s))"

definition get_world_transform ::
  "('p, 'v) transform_system \<Rightarrow> entity
     \<Rightarrow> 'p world_transform_component option \<times> ('p, 'v) transform_system" where
  "get_world_transform s e =
     (if e = kInvalidEntity then (None, s)
      else case world_transforms s e of Some w \<Rightarrow> (Some w, s) | None \<Rightarrow> (None, s))"

definition get_parent ::
  "('p, 'v) transform_system \<Rightarrow> entity \<Rightarrow> entity \<times> ('p, 'v) transform_system" where
  "get_parent s child =
     (if child = kInvalidEntity then (kInvalidEntity, s)
      else case scene_graph_transforms s child of
             Some node \<Rightarrow>
               (if parent node \<noteq> kInvalidEntity then (parent node, s) else (kInvalidEntity, s))
           | None \<Rightarrow> (kInvalidEntity, s))"

text \<open>
  \<^verbatim>\<open>add_child\<close>: the four guards, the two assignments (\<open>link\<close>), and the recomputation of
  the parent's subtree. Besides \<^verbatim>\<open>true\<close> and the state, the result holds the entities
  whose world pose the recomputation assigned, in the order of the assignments.
\<close>

definition link ::
  "('p, 'v) math_core \<Rightarrow> ('p, 'v) transform_system \<Rightarrow> entity \<Rightarrow> entity
     \<Rightarrow> ('p, 'v) transform_system" where
  "link M s p c =
     (let (parent_node, s1) = scene_graph_at M s p;
          s2 = update_node s1 p (\<lambda>node. node\<lparr>children := children node @ [c]\<rparr>);
          (child_node, s3) = scene_graph_at M s2 c
      in update_node s3 c (\<lambda>node. node\<lparr>parent := p\<rparr>))"

definition add_child ::
  "('p, 'v) math_core \<Rightarrow> nat \<Rightarrow> ('p, 'v) transform_system \<Rightarrow> entity \<Rightarrow> entity
     \<Rightarrow> (exn + bool \<times> ('p, 'v) transform_system \<times> entity list) option" where
  "add_child M n s p c =
     (if p = kInvalidEntity then Some (Inl (invalid_argument ''parent was invalid''))
      else if c = kInvalidEntity then Some (Inl (invalid_argument ''child was invalid''))
      else if \<not> fst (has_transform s p)
        then Some (Inl (invalid_argument ''parent has no transform component''))
      else if \<not> fst (has_transform s c)
        then Some (Inl (invalid_argument ''child has no transform component''))
      else map_option (\<lambda>(t, visited). Inr (True, t, visited))
             (recalculate_world_transform M n (link M s p c, []) p))"

text \<open>
  \<^verbatim>\<open>remove_parent\<close>: \<^verbatim>\<open>erase(remove(...))\<close> drops every occurrence of the child from the
  parent's list.
\<close>

definition remove_parent ::
  "('p, 'v) math_core \<Rightarrow> nat \<Rightarrow> ('p, 'v) transform_system \<Rightarrow> entity
     \<Rightarrow> ('p, 'v) transform_system option" where
  "remove_parent M n s child =
     (let (child_node, s1) = scene_graph_at M s child
      in if parent child_node \<noteq> kInvalidEntity
         then (let (parent_node, s2) = scene_graph_at M s1 (parent child_node);
                   s3 = update_node s2 (parent child_node)
                          (\<lambda>node. node\<lparr>children := removeAll child (children node)\<rparr>);
                   s4 = update_node s3 child (\<lambda>node. node\<lparr>parent := kInvalidEntity\<rparr>)
               in map_option fst (recalculate_world_transform M n (s4, []) child))
         else Some s1)"

text \<open>\<^verbatim>\<open>destroy\<close>: the two guards, then \<^verbatim>\<open>destroy_recursive\<close>.\<close>

definition destroy ::
  "('p, 'v) math_core \<Rightarrow> nat \<Rightarrow> ('p, 'v) transform_system \<Rightarrow> entity
     \<Rightarrow> (exn + ('p, 'v) transform_system \<times> entity list) option" where
  "destroy M n s e =
     (if e = kInvalidEntity then Some (Inl (invalid_argument ''parent was invalid''))
      else if \<not> fst (has_transform s e)
        then Some (Inl (invalid_argument ''no component exists for this entity''))
      else map_option Inr (destroy_recursive M n (s, []) e))"

section \<open>The render system\<close>

text \<open>
  \<^verbatim>\<open>renderer_settings\<close> and the members of \<^verbatim>\<open>pbr_render_system\<close> are declared in
  \<^verbatim>\<open>system-renderer-pbr.hpp\<close>, which is not among the sources; the fields below are the
  ones the functions under study read and write. A texture is its GL handle.
\<close>

record renderer_settings =
  cameraCount :: "32 word"
  tonemapEnabled :: bool

record ('mesh, 'mat, 'pl, 'dl) pbr_render_system =
  settings :: renderer_settings
  eyeTextures :: "32 word list"
  eyeDepthTextures :: "32 word list"
  postTextures :: "32 word list"
  meshes :: "entity \<rightharpoonup> 'mesh"
  materials :: "entity \<rightharpoonup> 'mat"
  point_lights :: "entity \<rightharpoonup> 'pl"
  directional_lights :: "entity \<rightharpoonup> 'dl"

text \<open>
  A call either returns a value, or stops at a failed \<^verbatim>\<open>assert\<close>, or reads a vector
  past its end (undefined behaviour in C++).
\<close>

datatype 'a outcome = Returned 'a | AssertionFailed | OutOfBounds

definition vector_at :: "'a list \<Rightarrow> 32 word \<Rightarrow> 'a outcome" where
  "vector_at xs idx = (if unat idx < length xs then Returned (xs ! unat idx) else OutOfBounds)"

definition get_color_texture ::
  "('mesh, 'mat, 'pl, 'dl) pbr_render_system \<Rightarrow> 32 word \<Rightarrow> 32 word outcome" where
  "get_color_texture sys idx =
     (if \<not> idx \<le> cameraCount (settings sys) then AssertionFailed
      else if tonemapEnabled (settings sys) then vector_at (postTextures sys) idx
      else vector_at (eyeTextures sys) idx)"

definition get_depth_texture ::
  "('mesh, 'mat, 'pl, 'dl) pbr_render_system \<Rightarrow> 32 word \<Rightarrow> 32 word outcome" where
  "get_depth_texture sys idx =
     (if \<not> idx \<le> cameraCount (settings sys) then AssertionFailed
      else vector_at (eyeDepthTextures sys) idx)"

text \<open>
  The part of the constructor that sizes the texture vectors: one texture per camera, the
  post-processing textures only when tone mapping is enabled. The handles come from the GL
  driver and are parameters.
\<close>

definition constructed ::
  "('mesh, 'mat, 'pl, 'dl) pbr_render_system \<Rightarrow> bool" where
  "constructed sys =
     (1 \<le> cameraCount (settings sys)
      \<and> length (eyeTextures sys) = unat (cameraCount (settings sys))
      \<and> length (eyeDepthTextures sys) = unat (cameraCount (settings sys))
      \<and> length (postTextures sys) =
          (if tonemapEnabled (settings sys) then unat (cameraCount (settings sys)) else 0))"

definition pbr_render_system_create ::
  "('mesh, 'mat, 'pl, 'dl) pbr_render_system \<Rightarrow> entity \<Rightarrow> poly_typeid \<Rightarrow> 'd
     \<Rightarrow> bool \<times> ('mesh, 'mat, 'pl, 'dl) pbr_render_system" where
  "pbr_render_system_create sys e type data = (True, sys)"

definition pbr_render_system_types :: "(component_type \<Rightarrow> poly_typeid) \<Rightarrow> poly_typeid list" where
  "pbr_render_system_types get_typeid =
     [get_typeid T_mesh_component, get_typeid T_material_component,
      get_typeid T_point_light_component, get_typeid T_directional_light_component]"

definition pbr_render_system_destroy ::
  "('mesh, 'mat, 'pl, 'dl) pbr_render_system \<Rightarrow> entity
     \<Rightarrow> ('mesh, 'mat, 'pl, 'dl) pbr_render_system" where
  "pbr_render_system_destroy sys e =
     (if e = kAllEntities
      then sys\<lparr>meshes := Map.empty, materials := Map.empty,
               point_lights := Map.empty, directional_lights := Map.empty\<rparr>
      else sys)"

text \<open>
  The part of \<^verbatim>\<open>render_frame\<close> that orders the draws. \<^verbatim>\<open>materialSortFunc\<close> reads the
  material id of an entity and its distance from the culling view; both come from other
  components (\<^verbatim>\<open>material.hpp\<close>, the transform system) and are parameters \<open>mat\<close> and
  \<open>dist\<close>. Distances are compared as a linear order, that is, no distance is a NaN.
\<close>

definition materialSortFunc ::
  "(entity \<Rightarrow> 'm::linorder) \<Rightarrow> (entity \<Rightarrow> 'd::linorder) \<Rightarrow> entity \<Rightarrow> entity \<Rightarrow> bool" where
  "materialSortFunc mat dist lhs rhs =
     (let lDist = dist lhs; rDist = dist rhs; lid = mat lhs; rid = mat rhs
      in if lid \<noteq> rid then lid > rid else lDist < rDist)"

text \<open>The loop that pushes the render set into the queue.\<close>

definition renderQueueMaterial :: "entity list \<Rightarrow> entity list" where
  "renderQueueMaterial render_set = foldl (\<lambda>q ent. q @ [ent]) [] render_set"

text \<open>
  \<^verbatim>\<open>std::priority_queue\<close> belongs to the C++ standard library. Its contract: \<^verbatim>\<open>top()\<close>
  is an element of the queue that the comparison puts before no other element
  (\<^verbatim>\<open>comp(top, y)\<close> is false for every \<open>y\<close> in the queue: \<open>is_top\<close>), and \<^verbatim>\<open>pop()\<close>
  removes it. Which of several such elements is on top depends on the heap and is left
  open: \<open>flatten\<close> relates the contents of the queue to every list the loop
  \<^verbatim>\<open>while (!q.empty()) { top = q.top(); q.pop(); list.push_back(top); }\<close> may produce.
\<close>

definition is_top :: "('a \<Rightarrow> 'a \<Rightarrow> bool) \<Rightarrow> 'a list \<Rightarrow> 'a \<Rightarrow> bool" where
  "is_top cmp q t = (t \<in> set q \<and> list_all (\<lambda>y. \<not> cmp t y) q)"

inductive flatten :: "('a \<Rightarrow> 'a \<Rightarrow> bool) \<Rightarrow> 'a list \<Rightarrow> 'a list \<Rightarrow> bool"
  for cmp :: "'a \<Rightarrow> 'a \<Rightarrow> bool" where
  flatten_empty: "flatten cmp [] []"
| flatten_pop:
    "is_top cmp q t \<Longrightarrow> flatten cmp (remove1 t q) out \<Longrightarrow> flatten cmp q (t # out)"

code_pred flatten .

definition materialRenderList ::
  "(entity \<Rightarrow> 'm::linorder) \<Rightarrow> (entity \<Rightarrow> 'd::linorder) \<Rightarrow> entity list \<Rightarrow> entity list \<Rightarrow> bool" where
  "materialRenderList mat dist render_set out =
     flatten (materialSortFunc mat dist) (renderQueueMaterial render_set) out"

text \<open>
  Orders of a render list. The spec's: the entities of one material are contiguous, and
  within one material the distance ascends. The last predicate is the opposite order
  within a material.
\<close>

definition grouped_by_material :: "(entity \<Rightarrow> 'm) \<Rightarrow> entity list \<Rightarrow> bool" where
  "grouped_by_material mat out =
     (\<forall>k < length out. \<forall>j < k. \<forall>i < j. mat (out ! i) = mat (out ! k) \<longrightarrow> mat (out ! j) = mat (out ! i))"

definition distance_ascending_within_material ::
  "(entity \<Rightarrow> 'm) \<Rightarrow> (entity \<Rightarrow> 'd::linorder) \<Rightarrow> entity list \<Rightarrow> bool" where
  "distance_ascending_within_material mat dist out =
     sorted_wrt (\<lambda>a b. mat a = mat b \<longrightarrow> dist a \<le> dist b) out"

definition distance_descending_within_material ::
  "(entity \<Rightarrow> 'm) \<Rightarrow> (entity \<Rightarrow> 'd::linorder) \<Rightarrow> entity list \<Rightarrow> bool" where
  "distance_descending_within_material mat dist out =
     sorted_wrt (\<lambda>a b. mat a = mat b \<longrightarrow> dist b \<le> dist a) out"

section \<open>The scene graph as a relation\<close>

text \<open>
  The children list of an entity; an entity without a scene-graph record has none. The
  relation \<open>child_rel\<close> holds the pairs (child, parent) of the lists, and the descendants
  of an entity are the entities the lists lead to, the entity itself included.
\<close>

definition kids :: "('p, 'v) transform_system \<Rightarrow> entity \<Rightarrow> entity list" where
  "kids s e = (case scene_graph_transforms s e of None \<Rightarrow> [] | Some node \<Rightarrow> children node)"

definition child_rel :: "('p, 'v) transform_system \<Rightarrow> (entity \<times> entity) set" where
  "child_rel s = {(c, p). c \<in> set (kids s p)}"

definition descendants :: "('p, 'v) transform_system \<Rightarrow> entity \<Rightarrow> entity set" where
  "descendants s e = {x. (x, e) \<in> (child_rel s)\<^sup>*}"

text \<open>
  Every entity with a world-transform record has a scene-graph record: the two records of
  an entity are created and erased together, and the scene-graph record is the one that
  \<^verbatim>\<open>has_transform\<close> looks for.
\<close>

definition world_in_scene_graph :: "('p, 'v) transform_system \<Rightarrow> bool" where
  "world_in_scene_graph s =
     (\<forall>x. world_transforms s x \<noteq> None \<longrightarrow> scene_graph_transforms s x \<noteq> None)"

text \<open>The state without the records of a set of entities.\<close>

definition erase_set ::
  "('p, 'v) transform_system \<Rightarrow> entity set \<Rightarrow> ('p, 'v) transform_system" where
  "erase_set s A =
     s\<lparr>world_transforms := (\<lambda>x. if x \<in> A then None else world_transforms s x),
       scene_graph_transforms := (\<lambda>x. if x \<in> A then None else scene_graph_transforms s x)\<rparr>"

text \<open>
  In a sequence of erasures, the children of an entity come before the entity: whenever an
  entity is erased, every entity of its children list has been erased before.
\<close>

definition children_first :: "('p, 'v) transform_system \<Rightarrow> entity list \<Rightarrow> bool" where
  "children_first s erased =
     (\<forall>i < length erased. set (kids s (erased ! i)) \<subseteq> set (take i erased))"

text \<open>
  The state of a destruction under way, relative to the state \<open>s0\<close> it started from: the
  erased entities have lost their children lists and the others have kept theirs, the
  children of an erased entity are erased, and they were erased first.
\<close>

definition destroying ::
  "('p, 'v) transform_system \<Rightarrow> ('p, 'v) transform_system \<times> entity list \<Rightarrow> bool" where
  "destroying s0 u =
     ((\<forall>x. kids (fst u) x = (if x \<in> set (snd u) then [] else kids s0 x))
      \<and> (\<forall>x\<in>set (snd u). set (kids s0 x) \<subseteq> set (snd u))
      \<and> children_first s0 (snd u))"

text \<open>
  The depth-first order of the spec over the children lists: the entity first, then the
  subtree of each child in list order. The first argument bounds the depth.
\<close>

fun subtree_preorder :: "nat \<Rightarrow> (entity \<Rightarrow> entity list) \<Rightarrow> entity \<Rightarrow> entity list option" where
  "subtree_preorder 0 k e = None"
| "subtree_preorder (Suc n) k e =
     map_option (\<lambda>xss. e # concat xss) (those (map (subtree_preorder n k) (k e)))"

text \<open>
  The world pose of the spec: the local pose composed with the local poses of all
  ancestors along the parent fields, that is, with the world pose of the parent.
\<close>

fun chain_pose ::
  "('p, 'v) math_core \<Rightarrow> nat \<Rightarrow> ('p, 'v) transform_system \<Rightarrow> entity \<Rightarrow> 'p option" where
  "chain_pose M 0 s e = None"
| "chain_pose M (Suc n) s e =
     (case scene_graph_transforms s e of
        None \<Rightarrow> None
      | Some node \<Rightarrow>
          if parent node = kInvalidEntity then Some (local_pose node)
          else map_option (pose_mul M (local_pose node)) (chain_pose M n s (parent node)))"

text \<open>
  The pose that \<^verbatim>\<open>recalculate_world_transform\<close> stores for an entity, read off the
  scene-graph records as \<^verbatim>\<open>operator[]\<close> sees them: one level of the hierarchy.
\<close>

definition one_level_pose ::
  "('p, 'v) math_core \<Rightarrow> ('p, 'v) transform_system \<Rightarrow> entity \<Rightarrow> 'p" where
  "one_level_pose M s x =
     (let node = fst (scene_graph_at M s x)
      in if parent node \<noteq> kInvalidEntity
         then pose_mul M (local_pose node) (local_pose (fst (scene_graph_at M s (parent node))))
         else local_pose node)"

text \<open>
  The invariant of the spec: among the entities with a record, the children lists are
  the inverse of the parent fields.
\<close>

definition children_inverse_of_parent :: "('p, 'v) transform_system \<Rightarrow> bool" where
  "children_inverse_of_parent s =
     (\<forall>p c np nc. scene_graph_transforms s p = Some np \<and> scene_graph_transforms s c = Some nc
        \<longrightarrow> (c \<in> set (children np) \<longleftrightarrow> parent nc = p))"

text \<open>
  The states the public operations lead to from the state of the constructor. (A caller
  can also write through the pointers the queries return; that is not part of the
  relation.)
\<close>

definition empty_transform_system :: "('p, 'v) transform_system" where
  "empty_transform_system =
     \<lparr>scene_graph_transforms = Map.empty, world_transforms = Map.empty\<rparr>"

inductive reachable :: "('p, 'v) math_core \<Rightarrow> ('p, 'v) transform_system \<Rightarrow> bool"
  for M :: "('p, 'v) math_core" where
  reachable_init: "reachable M empty_transform_system"
| reachable_create:
    "reachable M s \<Longrightarrow> create M n s e lp ls = Some (b, s') \<Longrightarrow> reachable M s'"
| reachable_add_child:
    "reachable M s \<Longrightarrow> add_child M n s p c = Some (Inr (b, s', visited)) \<Longrightarrow> reachable M s'"
| reachable_remove_parent:
    "reachable M s \<Longrightarrow> remove_parent M n s c = Some s' \<Longrightarrow> reachable M s'"
| reachable_destroy:
    "reachable M s \<Longrightarrow> destroy M n s e = Some (Inr (s', erased)) \<Longrightarrow> reachable M s'"

section \<open>Concrete scenes\<close>

text \<open>
  Poses that are translations along one axis: composing two of them adds the offsets, the
  default pose is the identity.
\<close>

definition translation_core :: "(int, int) math_core" where
  "translation_core = \<lparr>pose_mul = (+), pose_default = 0, float3_default = 0\<rparr>"

definition returned :: "(exn + 'a) option \<Rightarrow> 'a option" where
  "returned r = (case r of Some (Inr x) \<Rightarrow> Some x | _ \<Rightarrow> None)"

text \<open>Three roots with the poses 5, 1 and 10.\<close>

definition three_roots :: "(int, int) transform_system option" where
  "three_roots =
     Option.bind (create translation_core 3 empty_transform_system 1 5 1) (\<lambda>(_, s1).
     Option.bind (create translation_core 3 s1 2 1 1) (\<lambda>(_, s2).
     Option.bind (create translation_core 3 s2 3 10 1) (\<lambda>(_, s3). Some s3)))"

text \<open>The chain 1 - 2 - 3: \<^verbatim>\<open>add_child(1, 2); add_child(2, 3)\<close>.\<close>

definition grandchild_scene :: "(int, int) transform_system option" where
  "grandchild_scene =
     Option.bind three_roots (\<lambda>s3.
     Option.bind (returned (add_child translation_core 3 s3 1 2)) (\<lambda>(_, s4, _).
     Option.bind (returned (add_child translation_core 3 s4 2 3)) (\<lambda>(_, s5, _). Some s5)))"

text \<open>\<^verbatim>\<open>add_child(1, 2)\<close> alone, and then a second \<^verbatim>\<open>create\<close> of entity 1 with the pose 7.\<close>

definition parent_and_child :: "(int, int) transform_system option" where
  "parent_and_child =
     Option.bind three_roots (\<lambda>s3.
     Option.bind (returned (add_child translation_core 3 s3 1 2)) (\<lambda>(_, s4, _). Some s4))"

definition recreated_parent :: "(int, int) transform_system option" where
  "recreated_parent =
     Option.bind parent_and_child (\<lambda>s4.
     Option.bind (create translation_core 3 s4 1 7 1) (\<lambda>(_, s5). Some s5))"

definition example_typeid :: "component_type \<Rightarrow> poly_typeid" where
  "example_typeid t =
     (case t of T_physics_component \<Rightarrow> 1 | T_render_component \<Rightarrow> 2
      | T_scene_graph_component \<Rightarrow> 3 | T_world_transform_component \<Rightarrow> 4
      | T_mesh_component \<Rightarrow> 5 | T_material_component \<Rightarrow> 6
      | T_point_light_component \<Rightarrow> 7 | T_directional_light_component \<Rightarrow> 8)"

text \<open>A renderer with one camera and no tone mapping, as its constructor leaves it.\<close>

definition mono_renderer :: "(unit, unit, unit, unit) pbr_render_system" where
  "mono_renderer =
     \<lparr>settings = \<lparr>cameraCount = 1, tonemapEnabled = False\<rparr>,
      eyeTextures = [7], eyeDepthTextures = [8], postTextures = [],
      meshes = [1 \<mapsto> ()], materials = [1 \<mapsto> ()],
      point_lights = Map.empty, directional_lights = [2 \<mapsto> ()]\<rparr>"

text \<open>Two entities with the same material, at the distances 1 and 2 from the view.\<close>

definition one_material :: "entity \<Rightarrow> nat" where
  "one_material e = 0"

definition distance_is_id :: "entity \<Rightarrow> nat" where
  "distance_is_id e = unat e"

section \<open>Evaluating the recursions on numerals\<close>

lemma recalculate_world_transform_numeral:
  "recalculate_world_transform M (numeral k) u child =
     (let (node, s1) = recalculate_node M (fst u) child
      in for_each (\<lambda>c t. recalculate_world_transform M (pred_numeral k) t c) (children node)
           (s1, snd u @ [child]))"
  by (simp add: numeral_eq_Suc)

lemma destroy_recursive_numeral:
  "destroy_recursive M (numeral k) sl child =
     (let (node, s1) = scene_graph_at M (fst sl) child
      in case for_each (\<lambda>c t. destroy_recursive M (pred_numeral k) t c) (children node)
                (s1, snd sl) of
           None \<Rightarrow> None
         | Some (s2, erased) \<Rightarrow> Some (erase_entity s2 child, erased @ [child]))"
  by (simp add: numeral_eq_Suc)

lemma chain_pose_numeral:
  "chain_pose M (numeral k) s e =
     (case scene_graph_transforms s e of
        None \<Rightarrow> None
      | Some node \<Rightarrow>
          if parent node = kInvalidEntity then Some (local_pose node)
          else map_option (pose_mul M (local_pose node))
                 (chain_pose M (pred_numeral k) s (parent node)))"
  by (simp add: numeral_eq_Suc)

lemmas scene_simps =
  create_def add_child_def link_def recalculate_node_def scene_graph_at_def world_at_def
  set_world_pose_def update_node_def new_scene_graph_component_def
  new_world_transform_component_def has_transform_def kInvalidEntity_def returned_def
  translation_core_def empty_transform_system_def
  recalculate_world_transform_numeral destroy_recursive_numeral

lemma three_roots_eq:
  "three_roots = Some
     \<lparr>scene_graph_transforms =
        [1 \<mapsto> \<lparr>get_entity = 1, local_pose = 5, local_scale = 1, parent = 0, children = []\<rparr>,
         2 \<mapsto> \<lparr>get_entity = 2, local_pose = 1, local_scale = 1, parent = 0, children = []\<rparr>,
         3 \<mapsto> \<lparr>get_entity = 3, local_pose = 10, local_scale = 1, parent = 0, children = []\<rparr>],
      world_transforms =
        [1 \<mapsto> \<lparr>get_entity = 1, world_pose = 5\<rparr>,
         2 \<mapsto> \<lparr>get_entity = 2, world_pose = 1\<rparr>,
         3 \<mapsto> \<lparr>get_entity = 3, world_pose = 10\<rparr>]\<rparr>"
  by (simp add: three_roots_def scene_simps)

lemma parent_and_child_eq:
  "parent_and_child = Some
     \<lparr>scene_graph_transforms =
        [1 \<mapsto> \<lparr>get_entity = 1, local_pose = 5, local_scale = 1, parent = 0, children = [2]\<rparr>,
         2 \<mapsto> \<lparr>get_entity = 2, local_pose = 1, local_scale = 1, parent = 1, children = []\<rparr>,
         3 \<mapsto> \<lparr>get_entity = 3, local_pose = 10, local_scale = 1, parent = 0, children = []\<rparr>],
      world_transforms =
        [1 \<mapsto> \<lparr>get_entity = 1, world_pose = 5\<rparr>,
         2 \<mapsto> \<lparr>get_entity = 2, world_pose = 6\<rparr>,
         3 \<mapsto> \<lparr>get_entity = 3, world_pose = 10\<rparr>]\<rparr>"
  unfolding parent_and_child_def three_roots_eq
  by (simp add: scene_simps fun_upd_twist)

lemma grandchild_scene_eq:
  "grandchild_scene = Some
     \<lparr>scene_graph_transforms =
        [1 \<mapsto> \<lparr>get_entity = 1, local_pose = 5, local_scale = 1, parent = 0, children = [2]\<rparr>,
         2 \<mapsto> \<lparr>get_entity = 2, local_pose = 1, local_scale = 1, parent = 1, children = [3]\<rparr>,
         3 \<mapsto> \<lparr>get_entity = 3, local_pose = 10, local_scale = 1, parent = 2, children = []\<rparr>],
      world_transforms =
        [1 \<mapsto> \<lparr>get_entity = 1, world_pose = 5\<rparr>,
         2 \<mapsto> \<lparr>get_entity = 2, world_pose = 6\<rparr>,
         3 \<mapsto> \<lparr>get_entity = 3, world_pose = 11\<rparr>]\<rparr>"
  unfolding grandchild_scene_def three_roots_eq
  by (simp add: scene_simps fun_upd_twist)

lemma recreated_parent_eq:
  "recreated_parent = Some
     \<lparr>scene_graph_transforms =
        [1 \<mapsto> \<lparr>get_entity = 1, local_pose = 7, local_scale = 1, parent = 0, children = []\<rparr>,
         2 \<mapsto> \<lparr>get_entity = 2, local_pose = 1, local_scale = 1, parent = 1, children = []\<rparr>,
         3 \<mapsto> \<lparr>get_entity = 3, local_pose = 10, local_scale = 1, parent = 0, children = []\<rparr>],
      world_transforms =
        [1 \<mapsto> \<lparr>get_entity = 1, world_pose = 7\<rparr>,
         2 \<mapsto> \<lparr>get_entity = 2, world_pose = 6\<rparr>,
         3 \<mapsto> \<lparr>get_entity = 3, world_pose = 10\<rparr>]\<rparr>"
  unfolding recreated_parent_def parent_and_child_eq
  by (simp add: scene_simps fun_upd_twist)

section \<open>World poses\<close>

text \<open>
  C1. The claim: after any mutation the cached world pose of an entity is its local pose
  composed with the local poses of all its ancestors; after \<^verbatim>\<open>add_child(parent, child)\<close>
  the child's world pose is its local pose composed with the world pose of the parent, at
  any depth.

  \<^verbatim>\<open>recalculate_world_transform\<close> composes the local pose with the \<^emph>\<open>local\<close> pose of the
  parent. In the chain 1 - 2 - 3 with the translations 5, 1 and 10, entity 2 has the
  world pose 6 when entity 3 is added to it, and entity 3 ends with the world pose
  11 = 10 + 1, not with 16 = 10 + 6: the grandparent is left out.
\<close>

theorem grandchild_world_pose_ignores_grandparent:
  "map_option (\<lambda>s. (map_option world_pose (fst (get_world_transform s 2)),
                     map_option world_pose (fst (get_world_transform s 3)),
                     chain_pose translation_core 3 s 3)) grandchild_scene
     = Some (Some 6, Some 11, Some 16)"
  unfolding grandchild_scene_eq
  by (simp add: get_world_transform_def kInvalidEntity_def chain_pose_numeral translation_core_def)

section \<open>Children lists and parent fields\<close>

text \<open>
  C2. The claim: every mutating operation keeps the children lists the exact inverse of
  the parent fields among the entities with a record, also a second \<^verbatim>\<open>create\<close> of an
  entity that is present.

  After \<^verbatim>\<open>add_child(1, 2)\<close> entity 2 has the parent 1 and is in the list of entity 1. A
  second \<^verbatim>\<open>create\<close> of entity 1 replaces its record by a fresh one with an empty list
  (the source notes "todo - check already added"): both entities still have a record,
  entity 2 still names 1 as its parent, and the list of entity 1 is empty.
\<close>

theorem second_create_breaks_inverse:
  "map_option (\<lambda>s. (fst (has_transform s 1), fst (has_transform s 2),
                     fst (get_parent s 2), kids s 1)) parent_and_child
     = Some (True, True, 1, [2])
   \<and> map_option (\<lambda>s. (fst (has_transform s 1), fst (has_transform s 2),
                       fst (get_parent s 2), kids s 1)) recreated_parent
     = Some (True, True, 1, [])"
  unfolding recreated_parent_eq parent_and_child_eq
  by (simp add: has_transform_def get_parent_def kids_def kInvalidEntity_def)

text \<open>The same in terms of the invariant: it holds before the second create, not after.\<close>

lemma inverse_before_second_create:
  "\<exists>s. parent_and_child = Some s \<and> children_inverse_of_parent s"
  unfolding parent_and_child_eq
  by (auto simp: children_inverse_of_parent_def split: if_splits)

lemma no_inverse_after_second_create:
  "\<exists>s. recreated_parent = Some s \<and> \<not> children_inverse_of_parent s"
proof -
  obtain s where s: "recreated_parent = Some s" 
    and p: "scene_graph_transforms s 1 = Some \<lparr>get_entity = 1, local_pose = 7, local_scale = 1, parent = 0, children = []\<rparr>"
    and c: "scene_graph_transforms s 2 = Some \<lparr>get_entity = 2, local_pose = 1, local_scale = 1, parent = 1, children = []\<rparr>"
    unfolding recreated_parent_eq by simp
  have "\<not> children_inverse_of_parent s"
  proof
    assume "children_inverse_of_parent s"
    from this p c have "(2::entity) \<in> set ([]::entity list)"
      unfolding children_inverse_of_parent_def by fastforce
    then show False by simp
  qed
  with s show ?thesis by blast
qed

section \<open>Creation by type identifier\<close>

text \<open>
  C6, as amended. The two example systems reject a type identifier that is not theirs
  (the result is false and nothing is stored) and store a copy of the data under the
  entity when it is theirs (the result is true). The three-argument \<^verbatim>\<open>create\<close> of the
  transform system and of the render system return true for every type identifier and
  store nothing.
\<close>

theorem create_by_type_id:
  "(hash \<noteq> c1 sys1 \<longrightarrow> ex_system_one_create sys1 e hash d1 = (False, sys1))
   \<and> (hash = c1 sys1 \<longrightarrow>
        ex_system_one_create sys1 e hash d1
          = (True, sys1\<lparr>one_components := (one_components sys1)(e \<mapsto> d1)\<rparr>))
   \<and> (hash \<noteq> c2 sys2 \<longrightarrow> ex_system_two_create sys2 e hash d2 = (False, sys2))
   \<and> (hash = c2 sys2 \<longrightarrow>
        ex_system_two_create sys2 e hash d2
          = (True, sys2\<lparr>two_components := (two_components sys2)(e \<mapsto> d2)\<rparr>))
   \<and> transform_system_create_erased ts e hash d3 = (True, ts)
   \<and> pbr_render_system_create rs e hash d4 = (True, rs)"
  by (simp add: ex_system_one_create_def ex_system_two_create_def
        transform_system_create_erased_def pbr_render_system_create_def)

text \<open>
  An instance: each example system rejects the identifier of the other and stores the
  component under its own; the other two systems accept without storing.
\<close>

theorem create_by_type_id_witness:
  "(2::nat) \<noteq> c1 \<lparr>c1 = 1, one_components = Map.empty\<rparr>
   \<and> ex_system_one_create \<lparr>c1 = 1, one_components = Map.empty\<rparr> 5 2
        \<lparr>get_entity = 5, p_value1 = 0::int, p_value2 = 0, p_value3 = 0\<rparr>
       = (False, \<lparr>c1 = 1, one_components = Map.empty\<rparr>)
   \<and> (1::nat) = c1 \<lparr>c1 = 1, one_components = Map.empty\<rparr>
   \<and> one_components (snd (ex_system_one_create \<lparr>c1 = 1, one_components = Map.empty\<rparr> 5 1
            \<lparr>get_entity = 5, p_value1 = 0::int, p_value2 = 0, p_value3 = 0\<rparr>)) 5
       = Some \<lparr>get_entity = 5, p_value1 = 0, p_value2 = 0, p_value3 = 0\<rparr>
   \<and> (2::nat) = c2 \<lparr>c2 = 2, two_components = Map.empty\<rparr>
   \<and> two_components (snd (ex_system_two_create \<lparr>c2 = 2, two_components = Map.empty\<rparr> 5 2
            \<lparr>get_entity = 5, r_value1 = 0::int, r_value2 = 0, r_value3 = 0\<rparr>)) 5
       = Some \<lparr>get_entity = 5, r_value1 = 0, r_value2 = 0, r_value3 = 0\<rparr>
   \<and> (1::nat) \<noteq> c2 \<lparr>c2 = 2, two_components = Map.empty\<rparr>
   \<and> ex_system_two_create \<lparr>c2 = 2, two_components = Map.empty\<rparr> 5 1
        \<lparr>get_entity = 5, r_value1 = 0::int, r_value2 = 0, r_value3 = 0\<rparr>
       = (False, \<lparr>c2 = 2, two_components = Map.empty\<rparr>)
   \<and> fst (transform_system_create_erased
            (empty_transform_system :: (int, int) transform_system) 5 2 ()) = True
   \<and> fst (pbr_render_system_create mono_renderer 5 2 ()) = True"
  using create_by_type_id [of 2 "\<lparr>c1 = 1, one_components = Map.empty\<rparr>" 5
      "\<lparr>get_entity = 5, p_value1 = 0::int, p_value2 = 0, p_value3 = 0\<rparr>"
      "\<lparr>c2 = 2, two_components = Map.empty\<rparr>"
      "\<lparr>get_entity = 5, r_value1 = 0::int, r_value2 = 0, r_value3 = 0\<rparr>"
      "empty_transform_system :: (int, int) transform_system" "()" mono_renderer "()"]
    create_by_type_id [of 1 "\<lparr>c1 = 1, one_components = Map.empty\<rparr>" 5
      "\<lparr>get_entity = 5, p_value1 = 0::int, p_value2 = 0, p_value3 = 0\<rparr>"
      "\<lparr>c2 = 2, two_components = Map.empty\<rparr>"
      "\<lparr>get_entity = 5, r_value1 = 0::int, r_value2 = 0, r_value3 = 0\<rparr>"
      "empty_transform_system :: (int, int) transform_system" "()" mono_renderer "()"]
  by simp

text \<open>
  C6 as stated fails: the type of \<^verbatim>\<open>physics_component\<close> is none of the types the transform
  system or the render system registers for, and both return true.
\<close>

theorem stub_create_accepts_foreign_type:
  "example_typeid T_physics_component \<notin> set (transform_system_types example_typeid)
   \<and> transform_system_create_erased (empty_transform_system :: (int, int) transform_system) 1
        (example_typeid T_physics_component) () = (True, empty_transform_system)
   \<and> example_typeid T_physics_component \<notin> set (pbr_render_system_types example_typeid)
   \<and> pbr_render_system_create mono_renderer 1 (example_typeid T_physics_component) ()
        = (True, mono_renderer)"
  by (simp add: transform_system_types_def pbr_render_system_types_def example_typeid_def
        transform_system_create_erased_def pbr_render_system_create_def)


section \<open>Texture queries\<close>

text \<open>
  Within the range of the cameras both queries return the texture of the view; beyond
  \<^verbatim>\<open>cameraCount\<close> the assertion fails; at \<^verbatim>\<open>cameraCount\<close> itself the assertion
  \<^verbatim>\<open>idx <= settings.cameraCount\<close> passes and the vector is read past its end.
\<close>

lemma get_color_texture_in_range:
  assumes "constructed sys" and "idx < cameraCount (settings sys)"
  shows "get_color_texture sys idx =
           Returned ((if tonemapEnabled (settings sys) then postTextures sys else eyeTextures sys)
                       ! unat idx)"
    and "get_depth_texture sys idx = Returned (eyeDepthTextures sys ! unat idx)"
  using assms
  by (auto simp: constructed_def get_color_texture_def get_depth_texture_def vector_at_def
        word_less_nat_alt word_le_nat_alt)

lemma get_texture_beyond_cameraCount:
  assumes "cameraCount (settings sys) < idx"
  shows "get_color_texture sys idx = AssertionFailed"
    and "get_depth_texture sys idx = AssertionFailed"
  using assms by (auto simp: get_color_texture_def get_depth_texture_def)

lemma get_texture_at_cameraCount:
  assumes "constructed sys"
  shows "get_color_texture sys (cameraCount (settings sys)) = OutOfBounds"
    and "get_depth_texture sys (cameraCount (settings sys)) = OutOfBounds"
  using assms
  by (auto simp: constructed_def get_color_texture_def get_depth_texture_def vector_at_def)

text \<open>
  C7. The claim: for every index that is out of range (\<^verbatim>\<open>idx >= cameraCount\<close>) both
  texture queries fail their assertion. With one camera the index 1 is out of range; the
  assertion passes and both queries read past the end of their vector.
\<close>

theorem texture_query_at_cameraCount_passes_assert:
  "constructed mono_renderer
   \<and> get_color_texture mono_renderer 1 = OutOfBounds
   \<and> get_depth_texture mono_renderer 1 = OutOfBounds"
  by (simp add: constructed_def get_color_texture_def get_depth_texture_def vector_at_def
        mono_renderer_def)


section \<open>Destruction in the render system\<close>

text \<open>
  C9. \<^verbatim>\<open>pbr_render_system::destroy(kAllEntities)\<close> empties the four component maps; for
  every other entity it changes nothing.
\<close>

theorem pbr_destroy_all_or_nothing:
  "meshes (pbr_render_system_destroy sys kAllEntities) = Map.empty
   \<and> materials (pbr_render_system_destroy sys kAllEntities) = Map.empty
   \<and> point_lights (pbr_render_system_destroy sys kAllEntities) = Map.empty
   \<and> directional_lights (pbr_render_system_destroy sys kAllEntities) = Map.empty
   \<and> (e \<noteq> kAllEntities \<longrightarrow> pbr_render_system_destroy sys e = sys)"
  by (simp add: pbr_render_system_destroy_def)

text \<open>
  An instance: entity 1 is not \<^verbatim>\<open>kAllEntities\<close>, and destroying it leaves its mesh and the
  light of entity 2 in place.
\<close>

theorem pbr_destroy_all_or_nothing_witness:
  "meshes (pbr_render_system_destroy mono_renderer kAllEntities) = Map.empty
   \<and> directional_lights (pbr_render_system_destroy mono_renderer kAllEntities) = Map.empty
   \<and> (1::entity) \<noteq> kAllEntities
   \<and> meshes (pbr_render_system_destroy mono_renderer 1) = [1 \<mapsto> ()]
   \<and> directional_lights (pbr_render_system_destroy mono_renderer 1) = [2 \<mapsto> ()]"
proof -
  have ne: "(1::entity) \<noteq> kAllEntities" by (simp add: kAllEntities_def)
  have "pbr_render_system_destroy mono_renderer 1 = mono_renderer"
    using pbr_destroy_all_or_nothing [of mono_renderer 1] ne by simp
  then show ?thesis
    using pbr_destroy_all_or_nothing [of mono_renderer 1] ne
    by (simp add: mono_renderer_def)
qed


section \<open>The material-major render list\<close>

lemma foldl_push_back: "foldl (\<lambda>q ent. q @ [ent]) acc xs = acc @ xs"
  by (induction xs arbitrary: acc) simp_all

lemma renderQueueMaterial_eq: "renderQueueMaterial render_set = render_set"
  by (simp add: renderQueueMaterial_def foldl_push_back)

lemma flatten_mset: "flatten cmp q out \<Longrightarrow> mset out = mset q"
  by (induction rule: flatten.induct) (auto simp: is_top_def)

lemma flatten_set: "flatten cmp q out \<Longrightarrow> set out = set q"
  using flatten_mset mset_eq_setD by blast

lemma flatten_sorted: "flatten cmp q out \<Longrightarrow> sorted_wrt (\<lambda>a b. \<not> cmp a b) out"
proof (induction rule: flatten.induct)
  case flatten_empty
  show ?case by simp
next
  case (flatten_pop q t out)
  have "set out \<subseteq> set q"
    using flatten_set [OF flatten_pop.hyps(2)] set_remove1_subset by fastforce
  with flatten_pop show ?case
    by (auto simp: is_top_def list_all_iff)
qed

lemma is_top_exists:
  assumes irrefl: "\<And>a. \<not> cmp a a"
    and trans: "\<And>a b c. cmp a b \<Longrightarrow> cmp b c \<Longrightarrow> cmp a c"
  shows "q \<noteq> [] \<Longrightarrow> \<exists>t. is_top cmp q t"
proof (induction q)
  case Nil
  then show ?case by simp
next
  case (Cons x xs)
  show ?case
  proof (cases "xs = []")
    case True
    then show ?thesis by (auto simp: is_top_def irrefl)
  next
    case False
    then obtain t where t: "is_top cmp xs t" using Cons.IH by blast
    show ?thesis
    proof (cases "cmp t x")
      case True
      have "is_top cmp (x # xs) x"
        using t True irrefl trans by (auto simp: is_top_def list_all_iff)
      then show ?thesis ..
    next
      case False
      then have "is_top cmp (x # xs) t"
        using t by (auto simp: is_top_def)
      then show ?thesis ..
    qed
  qed
qed

lemma flatten_exists:
  assumes irrefl: "\<And>a. \<not> cmp a a"
    and trans: "\<And>a b c. cmp a b \<Longrightarrow> cmp b c \<Longrightarrow> cmp a c"
  shows "\<exists>out. flatten cmp q out"
proof (induction "length q" arbitrary: q)
  case 0
  then show ?case by (auto intro: flatten_empty)
next
  case (Suc n)
  then have "q \<noteq> []" by auto
  then obtain t where t: "is_top cmp q t"
    using is_top_exists [of cmp q] irrefl trans by blast
  then have "t \<in> set q" by (simp add: is_top_def)
  then have "length (remove1 t q) = n"
    using Suc.hyps(2) by (simp add: length_remove1)
  then obtain out where "flatten cmp (remove1 t q) out"
    using Suc.hyps(1) by metis
  with t have "flatten cmp q (t # out)" by (rule flatten_pop)
  then show ?case ..
qed

lemma materialSortFunc_irrefl: "\<not> materialSortFunc mat dist a a"
  by (simp add: materialSortFunc_def)

lemma materialSortFunc_trans:
  "materialSortFunc mat dist a b \<Longrightarrow> materialSortFunc mat dist b c
     \<Longrightarrow> materialSortFunc mat dist a c"
  by (auto simp: materialSortFunc_def Let_def split: if_splits)

lemma not_materialSortFunc:
  "(\<not> materialSortFunc mat dist a b) \<longleftrightarrow> (mat a < mat b \<or> (mat a = mat b \<and> dist b \<le> dist a))"
  by (auto simp: materialSortFunc_def Let_def)

lemma sorted_grouped:
  assumes "sorted (map mat out)"
  shows "grouped_by_material mat out"
  unfolding grouped_by_material_def
proof (intro allI impI)
  fix k j i
  assume k: "k < length out" and j: "j < k" and i: "i < j"
    and eq: "mat (out ! i) = mat (out ! k)"
  have "map mat out ! i \<le> map mat out ! j"
    using assms i j k by (intro sorted_nth_mono) auto
  moreover have "map mat out ! j \<le> map mat out ! k"
    using assms i j k by (intro sorted_nth_mono) auto
  ultimately show "mat (out ! j) = mat (out ! i)"
    using eq i j k by simp
qed

text \<open>
  C3, as amended. Whatever list the loop over the priority queue produces (and it
  produces one), the list holds exactly the entities of the render set, the material ids
  ascend along it, so that the entities of one material are contiguous, and within one
  material the distances from the culling view \<^emph>\<open>descend\<close>: the farthest entity of a material
  is drawn first.
\<close>

theorem material_major_render_list:
  fixes mat :: "entity \<Rightarrow> 'm::linorder" and dist :: "entity \<Rightarrow> 'd::linorder"
  shows "(\<exists>out. materialRenderList mat dist render_set out)
   \<and> (\<forall>out. materialRenderList mat dist render_set out \<longrightarrow>
          mset out = mset render_set
          \<and> sorted (map mat out)
          \<and> grouped_by_material mat out
          \<and> distance_descending_within_material mat dist out)"
proof (intro conjI allI impI)
  show "\<exists>out. materialRenderList mat dist render_set out"
    unfolding materialRenderList_def
    using flatten_exists [of "materialSortFunc mat dist"]
      materialSortFunc_irrefl materialSortFunc_trans by metis
next
  fix out
  assume "materialRenderList mat dist render_set out"
  then have fl: "flatten (materialSortFunc mat dist) render_set out"
    by (simp add: materialRenderList_def renderQueueMaterial_eq)
  show "mset out = mset render_set"
    using fl by (rule flatten_mset)
  have srt: "sorted_wrt (\<lambda>a b. mat a < mat b \<or> (mat a = mat b \<and> dist b \<le> dist a)) out"
    using flatten_sorted [OF fl] by (simp add: not_materialSortFunc)
  show sm: "sorted (map mat out)"
    unfolding sorted_map
    by (rule sorted_wrt_mono_rel [OF _ srt]) auto
  show "grouped_by_material mat out"
    using sm by (rule sorted_grouped)
  show "distance_descending_within_material mat dist out"
    unfolding distance_descending_within_material_def
    by (rule sorted_wrt_mono_rel [OF _ srt]) auto
qed

text \<open>
  Two entities of one material at the distances 1 and 2: the queue hands out the far one
  first.
\<close>

lemma near_far_flatten:
  "flatten (materialSortFunc one_material distance_is_id) [1, 2] [2, 1]"
proof -
  have a: "flatten (materialSortFunc one_material distance_is_id) [1] [1]"
    by (rule flatten_pop [where q = "[1]" and t = 1 and out = "[]", simplified])
       (simp_all add: is_top_def materialSortFunc_def flatten_empty)
  show ?thesis
    by (rule flatten_pop [where q = "[1, 2]" and t = 2 and out = "[1]", simplified])
       (simp_all add: is_top_def materialSortFunc_def one_material_def distance_is_id_def a)
qed

theorem material_major_render_list_witness:
  "materialRenderList one_material distance_is_id [1, 2] [2, 1]
   \<and> mset [2, 1 :: entity] = mset [1, 2]
   \<and> distance_descending_within_material one_material distance_is_id [2, 1]"
proof -
  have r: "materialRenderList one_material distance_is_id [1, 2] [2, 1]"
    by (simp add: materialRenderList_def renderQueueMaterial_eq near_far_flatten)
  with material_major_render_list [of one_material distance_is_id "[1, 2]"]
  show ?thesis by blast
qed

text \<open>
  C3 as stated fails: for the two entities above the only list the loop can produce is
  far before near, which is not ascending in the distance.
\<close>

theorem render_list_far_before_near:
  "materialRenderList one_material distance_is_id [1, 2] [2, 1]
   \<and> \<not> materialRenderList one_material distance_is_id [1, 2] [1, 2]
   \<and> \<not> distance_ascending_within_material one_material distance_is_id [2, 1]"
proof -
  have r: "materialRenderList one_material distance_is_id [1, 2] [2, 1]"
    by (simp add: materialRenderList_def renderQueueMaterial_eq near_far_flatten)
  have n: "\<not> flatten (materialSortFunc one_material distance_is_id) [1, 2] [1, 2]"
  proof
    assume "flatten (materialSortFunc one_material distance_is_id) [1, 2] [1, 2]"
    then have "is_top (materialSortFunc one_material distance_is_id) [1, 2] 1"
      by (cases rule: flatten.cases) simp
    then show False
      by (simp add: is_top_def materialSortFunc_def one_material_def distance_is_id_def)
  qed
  have d: "\<not> distance_ascending_within_material one_material distance_is_id [2, 1]"
    by (simp add: distance_ascending_within_material_def one_material_def distance_is_id_def)
  from r n d show ?thesis
    by (simp add: materialRenderList_def renderQueueMaterial_eq)
qed

section \<open>The loop over the children\<close>

lemma for_each_invariant:
  assumes step: "\<And>x t t'. I t \<Longrightarrow> f x t = Some t' \<Longrightarrow> I t'"
  shows "I s \<Longrightarrow> for_each f xs s = Some s' \<Longrightarrow> I s'"
proof (induction xs arbitrary: s)
  case Nil
  then show ?case by simp
next
  case (Cons x xs)
  then show ?case
    by (auto split: option.splits dest: step)
qed

section \<open>What operator[] and the node step leave alone\<close>

lemma scene_graph_at_fst:
  "children (fst (scene_graph_at M s e)) = kids s e"
  "parent (fst (scene_graph_at M s e)) =
     (case scene_graph_transforms s e of None \<Rightarrow> kInvalidEntity | Some node \<Rightarrow> parent node)"
  by (simp_all add: scene_graph_at_def kids_def new_scene_graph_component_def
        split: option.splits)

lemma scene_graph_at_snd:
  "world_transforms (snd (scene_graph_at M s e)) = world_transforms s"
  "scene_graph_transforms (snd (scene_graph_at M s e)) x =
     (if x = e \<and> scene_graph_transforms s e = None
      then Some (new_scene_graph_component M kInvalidEntity)
      else scene_graph_transforms s x)"
  by (simp_all add: scene_graph_at_def split: option.splits)

lemma world_at_snd:
  "scene_graph_transforms (snd (world_at M s e)) = scene_graph_transforms s"
  "world_transforms (snd (world_at M s e)) x =
     (if x = e \<and> world_transforms s e = None
      then Some (new_world_transform_component M kInvalidEntity)
      else world_transforms s x)"
  by (simp_all add: world_at_def split: option.splits)

lemma set_world_pose_sel:
  "scene_graph_transforms (set_world_pose s e p) = scene_graph_transforms s"
  "dom (world_transforms (set_world_pose s e p)) = dom (world_transforms s)"
  by (auto simp: set_world_pose_def split: if_splits)

lemma update_node_sel:
  "world_transforms (update_node s e f) = world_transforms s"
  "dom (scene_graph_transforms (update_node s e f)) = dom (scene_graph_transforms s)"
  "scene_graph_transforms (update_node s e f) x =
     (if x = e then map_option f (scene_graph_transforms s e) else scene_graph_transforms s x)"
  by (auto simp: update_node_def split: if_splits)

lemma erase_entity_sel:
  "scene_graph_transforms (erase_entity s e) = (scene_graph_transforms s)(e := None)"
  "world_transforms (erase_entity s e) = (world_transforms s)(e := None)"
  by (simp_all add: erase_entity_def)

lemma recalculate_node_fst: "fst (recalculate_node M s c) = fst (scene_graph_at M s c)"
  by (simp add: recalculate_node_def Let_def case_prod_beta)

lemma recalculate_node_scene_graph:
  "scene_graph_transforms s x = Some node
     \<Longrightarrow> scene_graph_transforms (snd (recalculate_node M s c)) x = Some node"
  by (auto simp: recalculate_node_def Let_def case_prod_beta scene_graph_at_snd world_at_snd
        set_world_pose_sel split: if_splits)

lemma recalculate_node_scene_graph_new:
  "scene_graph_transforms (snd (recalculate_node M s c)) x = Some node
     \<Longrightarrow> scene_graph_transforms s x = Some node \<or> node = new_scene_graph_component M kInvalidEntity"
  by (auto simp: recalculate_node_def Let_def case_prod_beta scene_graph_at_snd world_at_snd
        set_world_pose_sel split: if_splits)

lemma recalculate_node_kids: "kids (snd (recalculate_node M s c)) = kids s"
proof
  fix x
  show "kids (snd (recalculate_node M s c)) x = kids s x"
  proof (cases "scene_graph_transforms s x")
    case None
    then show ?thesis
      using recalculate_node_scene_graph_new [of M s c x]
      by (cases "scene_graph_transforms (snd (recalculate_node M s c)) x")
         (auto simp: kids_def new_scene_graph_component_def)
  next
    case (Some node)
    then show ?thesis
      using recalculate_node_scene_graph [of s x node M c] by (simp add: kids_def)
  qed
qed

lemma recalculate_node_world_in_scene_graph:
  "world_in_scene_graph s \<Longrightarrow> world_in_scene_graph (snd (recalculate_node M s c))"
  by (auto simp: world_in_scene_graph_def recalculate_node_def Let_def case_prod_beta
        scene_graph_at_snd world_at_snd set_world_pose_sel set_world_pose_def
        split: if_splits)

lemma recalculate_unfold:
  "recalculate_world_transform M (Suc n) (s, l) c =
     for_each (\<lambda>x t. recalculate_world_transform M n t x) (kids s c)
       (snd (recalculate_node M s c), l @ [c])"
  by (simp add: case_prod_beta recalculate_node_fst scene_graph_at_fst)

lemma destroy_recursive_unfold:
  "destroy_recursive M (Suc n) (s, l) c =
     (case for_each (\<lambda>x t. destroy_recursive M n t x) (kids s c)
             (snd (scene_graph_at M s c), l) of
        None \<Rightarrow> None
      | Some (s2, erased) \<Rightarrow> Some (erase_entity s2 c, erased @ [c]))"
  by (simp add: case_prod_beta scene_graph_at_fst)

declare recalculate_world_transform.simps [simp del] destroy_recursive.simps [simp del]

section \<open>The world records are records of scene-graph entities\<close>

lemma recalculate_world_in_scene_graph:
  "world_in_scene_graph (fst u) \<Longrightarrow> recalculate_world_transform M n u c = Some u'
     \<Longrightarrow> world_in_scene_graph (fst u')"
proof (induction n arbitrary: u c u')
  case 0
  then show ?case by (simp add: recalculate_world_transform.simps)
next
  case (Suc n)
  obtain s l where u: "u = (s, l)" by (cases u)
  show ?case
  proof (rule for_each_invariant [where I = "\<lambda>t. world_in_scene_graph (fst t)"])
    show "for_each (\<lambda>x t. recalculate_world_transform M n t x) (kids s c)
            (snd (recalculate_node M s c), l @ [c]) = Some u'"
      using Suc.prems(2) by (simp add: u recalculate_unfold)
    show "world_in_scene_graph (fst (snd (recalculate_node M s c), l @ [c]))"
      using Suc.prems(1) by (simp add: u recalculate_node_world_in_scene_graph)
  qed (rule Suc.IH)
qed

lemma destroy_recursive_world_in_scene_graph:
  "world_in_scene_graph (fst sl) \<Longrightarrow> destroy_recursive M n sl c = Some sl'
     \<Longrightarrow> world_in_scene_graph (fst sl')"
proof (induction n arbitrary: sl c sl')
  case 0
  then show ?case by (simp add: destroy_recursive.simps)
next
  case (Suc n)
  obtain s l where sl: "sl = (s, l)" by (cases sl)
  from Suc.prems(2) obtain s2 erased where
    loop: "for_each (\<lambda>x t. destroy_recursive M n t x) (kids s c)
             (snd (scene_graph_at M s c), l) = Some (s2, erased)"
    and res: "sl' = (erase_entity s2 c, erased @ [c])"
    unfolding sl destroy_recursive_unfold by (auto split: option.splits)
  have "world_in_scene_graph (fst (s2, erased))"
  proof (rule for_each_invariant [where I = "\<lambda>t. world_in_scene_graph (fst t)", OF _ _ loop])
    show "world_in_scene_graph (fst (snd (scene_graph_at M s c), l))"
      using Suc.prems(1) by (auto simp: sl scene_graph_at_snd world_in_scene_graph_def)
  qed (rule Suc.IH)
  then show ?case
    by (auto simp: res erase_entity_sel world_in_scene_graph_def)
qed

lemma link_world_in_scene_graph:
  "world_in_scene_graph s \<Longrightarrow> world_in_scene_graph (link M s p c)"
  by (auto simp: world_in_scene_graph_def link_def Let_def case_prod_beta update_node_sel
        scene_graph_at_snd split: if_splits)

lemma reachable_world_in_scene_graph:
  "reachable M s \<Longrightarrow> world_in_scene_graph s"
proof (induction rule: reachable.induct)
  case reachable_init
  show ?case by (simp add: empty_transform_system_def world_in_scene_graph_def)
next
  case (reachable_create s n e lp ls b s')
  define t where "t =
    (update_node (update_node
       (s\<lparr>scene_graph_transforms :=
            (scene_graph_transforms s)(e \<mapsto> new_scene_graph_component M e)\<rparr>)
       e (\<lambda>node. node\<lparr>local_pose := lp\<rparr>)) e (\<lambda>node. node\<lparr>local_scale := ls\<rparr>))
     \<lparr>world_transforms := (world_transforms s)(e \<mapsto> new_world_transform_component M e)\<rparr>"
  obtain v where "recalculate_world_transform M n (t, []) e = Some (s', v)"
    using reachable_create.hyps(2)
    by (auto simp: create_def Let_def t_def update_node_sel)
  moreover have "world_in_scene_graph t"
    using reachable_create.IH
    by (auto simp: world_in_scene_graph_def t_def update_node_sel)
  ultimately show ?case
    using recalculate_world_in_scene_graph [of "(t, [])" M n e "(s', v)"] by simp
next
  case (reachable_add_child s n p c b s' visited)
  from reachable_add_child.hyps(2)
  have "recalculate_world_transform M n (link M s p c, []) p = Some (s', visited)"
    by (auto simp: add_child_def split: if_splits)
  then show ?case
    using recalculate_world_in_scene_graph [of "(link M s p c, [])" M n p "(s', visited)"]
      link_world_in_scene_graph [OF reachable_add_child.IH]
    by simp
next
  case (reachable_remove_parent s n c s')
  show ?case
  proof (cases "parent (fst (scene_graph_at M s c)) \<noteq> kInvalidEntity")
    case False
    then have "s' = snd (scene_graph_at M s c)"
      using reachable_remove_parent.hyps(2)
      by (simp add: remove_parent_def case_prod_beta)
    then show ?thesis
      using reachable_remove_parent.IH
      by (auto simp: scene_graph_at_snd world_in_scene_graph_def)
  next
    case True
    define t where "t =
      update_node
        (update_node (snd (scene_graph_at M (snd (scene_graph_at M s c))
                             (parent (fst (scene_graph_at M s c)))))
           (parent (fst (scene_graph_at M s c)))
           (\<lambda>node. node\<lparr>children := removeAll c (children node)\<rparr>))
        c (\<lambda>node. node\<lparr>parent := kInvalidEntity\<rparr>)"
    obtain v where "recalculate_world_transform M n (t, []) c = Some (s', v)"
      using reachable_remove_parent.hyps(2) True
      by (auto simp: remove_parent_def case_prod_beta Let_def t_def)
    moreover have "world_in_scene_graph t"
      using reachable_remove_parent.IH
      by (auto simp: world_in_scene_graph_def t_def update_node_sel scene_graph_at_snd
            split: if_splits)
    ultimately show ?thesis
      using recalculate_world_in_scene_graph [of "(t, [])" M n c "(s', v)"] by simp
  qed
next
  case (reachable_destroy s n e s' erased)
  from reachable_destroy.hyps(2)
  have "destroy_recursive M n (s, []) e = Some (s', erased)"
    by (auto simp: destroy_def split: if_splits)
  then show ?case
    using destroy_recursive_world_in_scene_graph [of "(s, [])" M n e "(s', erased)"]
      reachable_destroy.IH
    by simp
qed

section \<open>Queries for absent entities\<close>

text \<open>
  C10. For an entity without a transform record (the invalid sentinel included, when it
  has none), in a state where every world record belongs to an entity with a scene-graph
  record (every reachable state is one, \<open>reachable_world_in_scene_graph\<close>): no query throws,
  \<^verbatim>\<open>has_transform\<close> is false, \<^verbatim>\<open>get_world_transform\<close> and \<^verbatim>\<open>get_local_transform\<close> are
  null, \<^verbatim>\<open>get_parent\<close> is the invalid entity, and each query leaves the state as it was.
\<close>

theorem queries_on_absent_entity:
  assumes "world_in_scene_graph s"
    and "scene_graph_transforms s e = None"
  shows "has_transform s e = (False, s)
    \<and> get_world_transform s e = (None, s)
    \<and> get_local_transform s e = (None, s)
    \<and> get_parent s e = (kInvalidEntity, s)"
proof -
  have "world_transforms s e = None"
    using assms by (auto simp: world_in_scene_graph_def)
  with assms(2) show ?thesis
    by (simp add: has_transform_def get_world_transform_def get_local_transform_def
          get_parent_def)
qed

text \<open>
  An instance: entity 4 has no record in the scene of the three roots, which is
  reachable.
\<close>

lemma three_roots_reachable: "\<exists>s. three_roots = Some s \<and> reachable translation_core s"
proof -
  obtain s1 where s1: "create translation_core 3 empty_transform_system 1 5 1 = Some (True, s1)"
    by (simp add: scene_simps)
  obtain s2 where s2: "create translation_core 3 s1 2 1 1 = Some (True, s2)"
    using s1 by (auto simp: create_def Let_def recalculate_world_transform_numeral
        recalculate_node_def scene_graph_at_def world_at_def update_node_def set_world_pose_def
        new_scene_graph_component_def kInvalidEntity_def)
  obtain s3 where s3: "create translation_core 3 s2 3 10 1 = Some (True, s3)"
    using s2 by (auto simp: create_def Let_def recalculate_world_transform_numeral
        recalculate_node_def scene_graph_at_def world_at_def update_node_def set_world_pose_def
        new_scene_graph_component_def kInvalidEntity_def)
  have "reachable translation_core s3"
    by (rule reachable_create [OF reachable_create [OF reachable_create [OF reachable_init s1] s2] s3])
  moreover have "three_roots = Some s3"
    by (simp add: three_roots_def s1 s2 s3)
  ultimately show ?thesis by blast
qed

theorem queries_on_absent_entity_witness:
  "\<exists>s. three_roots = Some s
      \<and> has_transform s 4 = (False, s)
      \<and> get_world_transform s 4 = (None, s)
      \<and> get_local_transform s 4 = (None, s)
      \<and> get_parent s 4 = (kInvalidEntity, s)"
proof -
  from three_roots_reachable obtain s where s: "three_roots = Some s"
    and r: "reachable translation_core s" by blast
  have inv: "world_in_scene_graph s"
    using r by (rule reachable_world_in_scene_graph)
  have absent: "scene_graph_transforms s 4 = None"
    using s by (auto simp: three_roots_eq)
  from queries_on_absent_entity [OF inv absent] s show ?thesis by blast
qed

lemma queries_on_invalid_entity:
  "get_world_transform s kInvalidEntity = (None, s)"
  "get_local_transform s kInvalidEntity = (None, s)"
  "get_parent s kInvalidEntity = (kInvalidEntity, s)"
  by (simp_all add: get_world_transform_def get_local_transform_def get_parent_def)

lemma queries_leave_state:
  "snd (has_transform s e) = s"
  "snd (get_world_transform s e) = s"
  "snd (get_local_transform s e) = s"
  "snd (get_parent s e) = s"
  by (simp_all add: has_transform_def get_world_transform_def get_local_transform_def
        get_parent_def split: option.splits)

section \<open>The recomputation is a depth-first traversal\<close>

lemma foldl_invariant:
  assumes "\<And>t y. I t \<Longrightarrow> I (step t y)"
  shows "I s \<Longrightarrow> I (foldl step s ys)"
  by (induction ys arbitrary: s) (simp_all add: assms)

lemma for_each_those:
  assumes f: "\<And>x t. I t \<Longrightarrow>
                f x t = (case g x of None \<Rightarrow> None | Some ys \<Rightarrow> Some (foldl step t ys))"
    and step: "\<And>t y. I t \<Longrightarrow> I (step t y)"
  shows "I s \<Longrightarrow>
         for_each f xs s =
           (case those (map g xs) of
              None \<Rightarrow> None
            | Some yss \<Rightarrow> Some (foldl step s (concat yss)))"
proof (induction xs arbitrary: s)
  case Nil
  then show ?case by simp
next
  case (Cons x xs)
  show ?case
  proof (cases "g x")
    case None
    then show ?thesis using f [OF Cons.prems, of x] by simp
  next
    case (Some ys)
    have "I (foldl step s ys)"
      using Cons.prems step by (rule foldl_invariant [rotated])
    then show ?thesis
      using f [OF Cons.prems, of x] Some Cons.IH [of "foldl step s ys"]
      by (simp split: option.splits)
  qed
qed

lemma foldl_visit:
  "foldl (\<lambda>u x. (step (fst u) x, snd u @ [x])) u xs = (foldl step (fst u) xs, snd u @ xs)"
  by (induction xs arbitrary: u) simp_all

lemma recalculate_preorder:
  fixes s :: "('p, 'v) transform_system"
  shows "recalculate_world_transform M n (s, l) c =
     (case subtree_preorder n (kids s) c of
        None \<Rightarrow> None
      | Some xs \<Rightarrow> Some (foldl (\<lambda>t x. snd (recalculate_node M t x)) s xs, l @ xs))"
proof (induction n arbitrary: s l c)
  case 0
  show ?case by (simp add: recalculate_world_transform.simps)
next
  case (Suc n)
  let ?step = "\<lambda>(t :: ('p, 'v) transform_system) x. snd (recalculate_node M t x)"
  let ?visit = "\<lambda>(u :: ('p, 'v) transform_system \<times> entity list) x.
                  (?step (fst u) x, snd u @ [x])"
  have "for_each (\<lambda>x t. recalculate_world_transform M n t x) (kids s c)
          (?step s c, l @ [c]) =
        (case those (map (subtree_preorder n (kids s)) (kids s c)) of
           None \<Rightarrow> None
         | Some yss \<Rightarrow> Some (foldl ?visit (?step s c, l @ [c]) (concat yss)))"
  proof (rule for_each_those [where I = "\<lambda>u. kids (fst u) = kids s"])
    fix x and u :: "('p, 'v) transform_system \<times> entity list"
    assume "kids (fst u) = kids s"
    then show "recalculate_world_transform M n u x =
      (case subtree_preorder n (kids s) x of
         None \<Rightarrow> None
       | Some ys \<Rightarrow> Some (foldl ?visit u ys))"
      using Suc.IH [of "fst u" "snd u" x]
      by (simp add: foldl_visit [where step = ?step] split: option.splits)
  next
    fix y and u :: "('p, 'v) transform_system \<times> entity list"
    assume "kids (fst u) = kids s"
    then show "kids (fst (?visit u y)) = kids s"
      by (simp add: recalculate_node_kids)
  next
    show "kids (fst (?step s c, l @ [c])) = kids s"
      by (simp add: recalculate_node_kids)
  qed
  then show ?case
    by (simp add: recalculate_unfold foldl_visit [where step = ?step] split: option.splits)
qed

lemma recalculate_result:
  assumes "recalculate_world_transform M n (s, l) c = Some (s', l')"
  shows "\<exists>xs. subtree_preorder n (kids s) c = Some xs
            \<and> s' = foldl (\<lambda>t x. snd (recalculate_node M t x)) s xs \<and> l' = l @ xs"
  using assms by (auto simp: recalculate_preorder split: option.splits)

section \<open>The traversal returns on a well-founded children relation\<close>

lemma those_map_Some:
  "(\<And>x. x \<in> set xs \<Longrightarrow> f x \<noteq> None) \<Longrightarrow> those (map f xs) \<noteq> None"
  by (induction xs) (auto split: option.splits)

lemma those_map_None:
  "x \<in> set xs \<Longrightarrow> f x = None \<Longrightarrow> those (map f xs) = None"
  by (induction xs) (auto split: option.splits)

lemma uniform_bound:
  fixes P :: "nat \<Rightarrow> 'a \<Rightarrow> bool"
  assumes "\<And>x. x \<in> set xs \<Longrightarrow> \<exists>n. \<forall>m\<ge>n. P m x"
  shows "\<exists>n. \<forall>m\<ge>n. \<forall>x\<in>set xs. P m x"
  using assms
proof (induction xs)
  case Nil
  then show ?case by simp
next
  case (Cons x xs)
  then obtain n1 where n1: "\<forall>m\<ge>n1. \<forall>y\<in>set xs. P m y" by auto
  from Cons.prems [of x] obtain n2 where n2: "\<forall>m\<ge>n2. P m x" by auto
  have "\<forall>m\<ge>max n1 n2. \<forall>y\<in>set (x # xs). P m y"
    using n1 n2 by auto
  then show ?case by blast
qed

lemma subtree_preorder_returns:
  assumes "wf {(c, p). c \<in> set (k p)}"
  shows "\<exists>n. \<forall>m\<ge>n. subtree_preorder m k e \<noteq> None"
  using assms
proof (induction e rule: wf_induct_rule)
  case (less e)
  have "\<exists>n. \<forall>m\<ge>n. \<forall>c\<in>set (k e). subtree_preorder m k c \<noteq> None"
    by (rule uniform_bound) (use less in auto)
  then obtain n where n: "\<forall>m\<ge>n. \<forall>c\<in>set (k e). subtree_preorder m k c \<noteq> None" ..
  have "subtree_preorder m k e \<noteq> None" if "m \<ge> Suc n" for m
  proof -
    from that obtain m' where m': "m = Suc m'" "m' \<ge> n" by (cases m) auto
    have "those (map (subtree_preorder m' k) (k e)) \<noteq> None"
      by (rule those_map_Some) (use n m' in auto)
    then show ?thesis by (auto simp: m')
  qed
  then show ?case by blast
qed

lemma recalculate_returns:
  assumes "wf (child_rel s)"
  shows "\<exists>n. \<forall>m\<ge>n. \<exists>s' visited. recalculate_world_transform M m (s, l) e = Some (s', visited)"
proof -
  have "wf {(c, p). c \<in> set (kids s p)}"
    using assms by (simp add: child_rel_def)
  from subtree_preorder_returns [OF this, of e]
  obtain n where n: "\<forall>m\<ge>n. subtree_preorder m (kids s) e \<noteq> None" ..
  have "\<exists>s' visited. recalculate_world_transform M m (s, l) e = Some (s', visited)"
    if "m \<ge> n" for m
    using n that by (auto simp: recalculate_preorder split: option.splits)
  then show ?thesis by blast
qed

section \<open>Linking a child\<close>

lemma recalculate_scene_graph:
  assumes "scene_graph_transforms s x = Some node"
    and "recalculate_world_transform M n (s, l) c = Some (s', l')"
  shows "scene_graph_transforms s' x = Some node"
proof -
  from recalculate_result [OF assms(2)] obtain xs where
    s': "s' = foldl (\<lambda>t x. snd (recalculate_node M t x)) s xs" by blast
  show ?thesis
    unfolding s'
    by (rule foldl_invariant [where I = "\<lambda>t. scene_graph_transforms t x = Some node"])
       (simp_all add: assms(1) recalculate_node_scene_graph)
qed

lemma link_scene_graph:
  assumes "scene_graph_transforms s p = Some np" and "scene_graph_transforms s c = Some nc"
  shows "scene_graph_transforms (link M s p c) =
           (if p = c
            then (scene_graph_transforms s)(p \<mapsto> np\<lparr>children := children np @ [c], parent := p\<rparr>)
            else (scene_graph_transforms s)
                   (p \<mapsto> np\<lparr>children := children np @ [c]\<rparr>, c \<mapsto> nc\<lparr>parent := p\<rparr>))"
  using assms
  by (auto simp: link_def Let_def case_prod_beta update_node_def scene_graph_at_def
        fun_eq_iff)

lemma link_kids:
  assumes "scene_graph_transforms s p = Some np" and "scene_graph_transforms s c = Some nc"
  shows "kids (link M s p c) = (kids s)(p := kids s p @ [c])"
  using assms by (auto simp: kids_def link_scene_graph fun_eq_iff)

lemma link_child_rel:
  assumes "scene_graph_transforms s p = Some np" and "scene_graph_transforms s c = Some nc"
  shows "child_rel (link M s p c) = insert (c, p) (child_rel s)"
  using assms by (auto simp: child_rel_def link_kids [OF assms] split: if_splits)

lemma subtree_preorder_hd:
  "subtree_preorder n k e = Some xs \<Longrightarrow> \<exists>rest. xs = e # rest"
  by (cases n) auto

section \<open>The world pose that the recomputation stores\<close>

lemma recalculate_node_view:
  "fst (scene_graph_at M (snd (recalculate_node M s c)) x) = fst (scene_graph_at M s x)"
proof (cases "scene_graph_transforms s x")
  case (Some node)
  then show ?thesis
    using recalculate_node_scene_graph [of s x node M c] by (simp add: scene_graph_at_def)
next
  case None
  then show ?thesis
    using recalculate_node_scene_graph_new [of M s c x]
    by (cases "scene_graph_transforms (snd (recalculate_node M s c)) x")
       (auto simp: scene_graph_at_def)
qed

lemma recalculate_node_one_level_pose:
  "one_level_pose M (snd (recalculate_node M s c)) = one_level_pose M s"
  by (simp add: one_level_pose_def fun_eq_iff recalculate_node_view Let_def)

lemma recalculate_node_world_pose:
  "map_option world_pose (world_transforms (snd (recalculate_node M s c)) x) =
     (if x = c then Some (one_level_pose M s c)
      else map_option world_pose (world_transforms s x))"
  by (auto simp: one_level_pose_def recalculate_node_def Let_def case_prod_beta
        scene_graph_at_def world_at_def set_world_pose_def new_scene_graph_component_def
        split: option.splits)

lemma recalculate_node_world_other:
  "x \<noteq> c \<Longrightarrow> world_transforms (snd (recalculate_node M s c)) x = world_transforms s x"
  by (auto simp: recalculate_node_def Let_def case_prod_beta scene_graph_at_def world_at_def
        set_world_pose_def split: option.splits)

lemma recalculate_nodes_one_level_pose:
  "one_level_pose M (foldl (\<lambda>t x. snd (recalculate_node M t x)) s xs) = one_level_pose M s"
  by (induction xs arbitrary: s) (simp_all add: recalculate_node_one_level_pose)

lemma recalculate_nodes_world_pose:
  "map_option world_pose
     (world_transforms (foldl (\<lambda>t x. snd (recalculate_node M t x)) s xs) x) =
     (if x \<in> set xs then Some (one_level_pose M s x)
      else map_option world_pose (world_transforms s x))"
proof (induction xs rule: rev_induct)
  case Nil
  show ?case by simp
next
  case (snoc y ys)
  show ?case
    by (simp add: recalculate_node_world_pose recalculate_nodes_one_level_pose snoc.IH)
qed

lemma recalculate_nodes_world_other:
  "x \<notin> set xs \<Longrightarrow>
     world_transforms (foldl (\<lambda>t x. snd (recalculate_node M t x)) s xs) x = world_transforms s x"
  by (induction xs rule: rev_induct) (simp_all add: recalculate_node_world_other)

lemma link_world_transforms: "world_transforms (link M s p c) = world_transforms s"
  by (simp add: link_def Let_def case_prod_beta update_node_sel scene_graph_at_snd)

lemma those_map_nth:
  "those (map f xs) = Some ys \<Longrightarrow> x \<in> set xs \<Longrightarrow> \<exists>y. f x = Some y \<and> y \<in> set ys"
  by (induction xs arbitrary: ys) (auto split: option.splits)

lemma subtree_preorder_children:
  assumes "subtree_preorder n k e = Some xs" and "c \<in> set (k e)"
  shows "c \<in> set xs"
proof -
  from assms(1) obtain n' xss where n: "n = Suc n'"
    and xss: "those (map (subtree_preorder n' k) (k e)) = Some xss"
    and xs: "xs = e # concat xss"
    by (cases n) auto
  from those_map_nth [OF xss assms(2)] obtain ys where
    ys: "subtree_preorder n' k c = Some ys" "ys \<in> set xss" by blast
  from subtree_preorder_hd [OF ys(1)] have "c \<in> set ys" by auto
  with ys(2) show ?thesis by (auto simp: xs)
qed

text \<open>
  What \<^verbatim>\<open>add_child\<close> leaves as the world pose of the child: its local pose composed with
  the \<^emph>\<open>local\<close> pose of the parent, whatever the world pose of the parent is. The world
  pose of the parent itself is recomputed too, from its own parent's local pose.
\<close>

lemma add_child_world_pose:
  assumes ok: "add_child M n s p c = Some (Inr (b, s', visited))"
    and np: "scene_graph_transforms s p = Some np"
    and nc: "scene_graph_transforms s c = Some nc"
  shows "map_option world_pose (fst (get_world_transform s' c))
           = Some (pose_mul M (local_pose nc) (local_pose np))"
proof -
  from ok have valid: "p \<noteq> kInvalidEntity" "c \<noteq> kInvalidEntity"
    and rec: "recalculate_world_transform M n (link M s p c, []) p = Some (s', visited)"
    by (auto simp: add_child_def split: if_splits)
  from recalculate_result [OF rec] have
    xs: "subtree_preorder n (kids (link M s p c)) p = Some visited"
    and s': "s' = foldl (\<lambda>t x. snd (recalculate_node M t x)) (link M s p c) visited"
    by auto
  have "c \<in> set (kids (link M s p c) p)"
    by (simp add: link_kids [OF np nc])
  with xs have "c \<in> set visited" by (rule subtree_preorder_children)
  then have "map_option world_pose (world_transforms s' c)
      = Some (one_level_pose M (link M s p c) c)"
    by (simp add: s' recalculate_nodes_world_pose)
  moreover have "one_level_pose M (link M s p c) c = pose_mul M (local_pose nc) (local_pose np)"
  proof -
    have lp: "scene_graph_transforms (link M s p c) p
                = Some (if p = c then np\<lparr>children := children np @ [c], parent := p\<rparr>
                        else np\<lparr>children := children np @ [c]\<rparr>)"
      by (simp add: link_scene_graph [OF np nc])
    have lc: "scene_graph_transforms (link M s p c) c
                = Some (if p = c then np\<lparr>children := children np @ [c], parent := p\<rparr>
                        else nc\<lparr>parent := p\<rparr>)"
      by (simp add: link_scene_graph [OF np nc])
    show ?thesis
    proof (cases "p = c")
      case True
      with np nc have "nc = np" by simp
      with True valid lc show ?thesis
        by (simp add: one_level_pose_def scene_graph_at_def)
    next
      case False
      with valid lp lc show ?thesis
        by (simp add: one_level_pose_def scene_graph_at_def)
    qed
  qed
  ultimately show ?thesis
    using valid by (auto simp: get_world_transform_def split: option.splits)
qed

lemma add_child_world_pose_below_root:
  assumes ok: "add_child M n s p c = Some (Inr (b, s', visited))"
    and np: "scene_graph_transforms s p = Some np"
    and nc: "scene_graph_transforms s c = Some nc"
    and root: "parent np = kInvalidEntity" and diff: "p \<noteq> c"
  shows "map_option world_pose (fst (get_world_transform s' p)) = Some (local_pose np)"
    and "map_option world_pose (fst (get_world_transform s' c))
           = Some (pose_mul M (local_pose nc) (local_pose np))"
proof -
  from ok have valid: "p \<noteq> kInvalidEntity" "c \<noteq> kInvalidEntity"
    and rec: "recalculate_world_transform M n (link M s p c, []) p = Some (s', visited)"
    by (auto simp: add_child_def split: if_splits)
  from recalculate_result [OF rec] have
    xs: "subtree_preorder n (kids (link M s p c)) p = Some visited"
    and s': "s' = foldl (\<lambda>t x. snd (recalculate_node M t x)) (link M s p c) visited"
    by auto
  from subtree_preorder_hd [OF xs] have "p \<in> set visited" by auto
  then have "map_option world_pose (world_transforms s' p)
      = Some (one_level_pose M (link M s p c) p)"
    by (simp add: s' recalculate_nodes_world_pose)
  moreover have "scene_graph_transforms (link M s p c) p
                = Some (np\<lparr>children := children np @ [c]\<rparr>)"
    using diff by (simp add: link_scene_graph [OF np nc])
  then have "one_level_pose M (link M s p c) p = local_pose np"
    using root by (simp add: one_level_pose_def scene_graph_at_def)
  ultimately show "map_option world_pose (fst (get_world_transform s' p)) = Some (local_pose np)"
    using valid by (auto simp: get_world_transform_def split: option.splits)
  show "map_option world_pose (fst (get_world_transform s' c))
           = Some (pose_mul M (local_pose nc) (local_pose np))"
    using ok np nc by (rule add_child_world_pose)
qed

section \<open>add_child\<close>

text \<open>
  C5. \<^verbatim>\<open>add_child(parent, child)\<close> throws an invalid-argument error exactly when one of
  the two entities is the invalid sentinel or has no transform record. When it returns, the
  result is true, the child is the last element of the parent's children list and the
  child's parent field is the parent. The world poses were assigned in the depth-first
  order of the parent's subtree: the parent first, then the subtree of each child in list
  order, the new child among them. Every entity of that order has as its world pose its
  local pose, composed with the local pose of its parent when it has one (for the new
  child: with the local pose of the new parent); the world record of every other entity
  is as it was, and the state is the one that the assignments, taken node by node in that
  order, lead to. It does return, for every sufficient stack depth, when the children
  relation is well-founded and the parent is not below the child (in every reachable state
  the relation is well-founded, \<open>reachable_forest\<close>).
\<close>

theorem add_child_contract:
  fixes s :: "('p, 'v) transform_system"
  shows
  "((\<exists>ex. add_child M n s p c = Some (Inl ex)) \<longleftrightarrow>
      (p = kInvalidEntity \<or> c = kInvalidEntity
       \<or> \<not> fst (has_transform s p) \<or> \<not> fst (has_transform s c)))
   \<and> (\<forall>b s' visited. add_child M n s p c = Some (Inr (b, s', visited)) \<longrightarrow>
         b
         \<and> map_option children (scene_graph_transforms s' p) = Some (kids s p @ [c])
         \<and> map_option parent (scene_graph_transforms s' c) = Some p
         \<and> subtree_preorder n (kids (link M s p c)) p = Some visited
         \<and> (\<exists>rest. visited = p # rest) \<and> c \<in> set visited
         \<and> (\<forall>x\<in>set visited.
               map_option world_pose (world_transforms s' x)
                 = Some (one_level_pose M (link M s p c) x))
         \<and> (\<forall>np nc. scene_graph_transforms s p = Some np \<and> scene_graph_transforms s c = Some nc
               \<longrightarrow> map_option world_pose (fst (get_world_transform s' c))
                     = Some (pose_mul M (local_pose nc) (local_pose np)))
         \<and> (\<forall>x. x \<notin> set visited \<longrightarrow> world_transforms s' x = world_transforms s x)
         \<and> s' = foldl (\<lambda>t x. snd (recalculate_node M t x)) (link M s p c) visited)
   \<and> (p \<noteq> kInvalidEntity \<and> c \<noteq> kInvalidEntity
        \<and> fst (has_transform s p) \<and> fst (has_transform s c)
        \<and> wf (child_rel s) \<and> p \<notin> descendants s c \<longrightarrow>
        (\<exists>n0. \<forall>m\<ge>n0. \<exists>s' visited. add_child M m s p c = Some (Inr (True, s', visited))))"
proof (intro conjI allI impI ballI)
  show "(\<exists>ex. add_child M n s p c = Some (Inl ex)) \<longleftrightarrow>
      (p = kInvalidEntity \<or> c = kInvalidEntity
       \<or> \<not> fst (has_transform s p) \<or> \<not> fst (has_transform s c))"
    by (auto simp: add_child_def)
next
  fix b s' visited
  assume ok: "add_child M n s p c = Some (Inr (b, s', visited))"
  then have guards: "fst (has_transform s p)" "fst (has_transform s c)"
    and b: "b"
    and rec: "recalculate_world_transform M n (link M s p c, []) p = Some (s', visited)"
    by (auto simp: add_child_def split: if_splits)
  from guards obtain np nc where
    np: "scene_graph_transforms s p = Some np" and nc: "scene_graph_transforms s c = Some nc"
    by (auto simp: has_transform_def split: if_splits)
  show "b" by (rule b)
  have lp: "scene_graph_transforms (link M s p c) p
              = Some (if p = c then np\<lparr>children := children np @ [c], parent := p\<rparr>
                      else np\<lparr>children := children np @ [c]\<rparr>)"
    by (simp add: link_scene_graph [OF np nc])
  have lc: "scene_graph_transforms (link M s p c) c
              = Some (if p = c then np\<lparr>children := children np @ [c], parent := p\<rparr>
                      else nc\<lparr>parent := p\<rparr>)"
    by (simp add: link_scene_graph [OF np nc])
  show "map_option children (scene_graph_transforms s' p) = Some (kids s p @ [c])"
    using recalculate_scene_graph [OF lp rec] np by (simp add: kids_def)
  show "map_option parent (scene_graph_transforms s' c) = Some p"
    using recalculate_scene_graph [OF lc rec] by simp
  from recalculate_result [OF rec] have
    xs: "subtree_preorder n (kids (link M s p c)) p = Some visited"
    and s': "s' = foldl (\<lambda>t x. snd (recalculate_node M t x)) (link M s p c) visited"
    by auto
  show "subtree_preorder n (kids (link M s p c)) p = Some visited" by (rule xs)
  show "\<exists>rest. visited = p # rest" using xs by (rule subtree_preorder_hd)
  have "c \<in> set (kids (link M s p c) p)"
    by (simp add: link_kids [OF np nc])
  with xs show "c \<in> set visited" by (rule subtree_preorder_children)
  show "s' = foldl (\<lambda>t x. snd (recalculate_node M t x)) (link M s p c) visited" by (rule s')
  show "map_option world_pose (world_transforms s' x)
          = Some (one_level_pose M (link M s p c) x)" if "x \<in> set visited" for x
    using that by (simp add: s' recalculate_nodes_world_pose)
  show "world_transforms s' x = world_transforms s x" if "x \<notin> set visited" for x
    using that by (simp add: s' recalculate_nodes_world_other link_world_transforms)
  show "map_option world_pose (fst (get_world_transform s' c))
          = Some (pose_mul M (local_pose nc') (local_pose np'))"
    if "scene_graph_transforms s p = Some np' \<and> scene_graph_transforms s c = Some nc'"
    for np' nc'
    using that add_child_world_pose [OF ok] by blast
next
  assume a: "p \<noteq> kInvalidEntity \<and> c \<noteq> kInvalidEntity
        \<and> fst (has_transform s p) \<and> fst (has_transform s c)
        \<and> wf (child_rel s) \<and> p \<notin> descendants s c"
  then obtain np nc where
    np: "scene_graph_transforms s p = Some np" and nc: "scene_graph_transforms s c = Some nc"
    by (auto simp: has_transform_def split: if_splits)
  have "wf (child_rel (link M s p c))"
    using a by (simp add: link_child_rel [OF np nc] descendants_def)
  from recalculate_returns [OF this, of M "[]" p]
  obtain n0 where "\<forall>m\<ge>n0. \<exists>s' visited.
      recalculate_world_transform M m (link M s p c, []) p = Some (s', visited)" ..
  then have "\<forall>m\<ge>n0. \<exists>s' visited. add_child M m s p c = Some (Inr (True, s', visited))"
    using a by (auto simp: add_child_def)
  then show "\<exists>n0. \<forall>m\<ge>n0. \<exists>s' visited. add_child M m s p c = Some (Inr (True, s', visited))" ..
qed

text \<open>
  An instance: entity 1 has the child 2, and \<^verbatim>\<open>add_child(1, 3)\<close> is called. The poses are
  assigned in the order 1, 2, 3; entity 3 gets the world pose 15 = 10 + 5 and entity 2
  keeps 6 = 1 + 5. Entity 4 has no record and is refused, and the scene is a forest in
  which 1 is not below 3.
\<close>

theorem add_child_contract_witness:
  "(\<exists>s'. Option.bind parent_and_child (\<lambda>s. add_child translation_core 3 s 1 3)
            = Some (Inr (True, s', [1, 2, 3]))
         \<and> map_option children (scene_graph_transforms s' 1) = Some [2, 3]
         \<and> map_option parent (scene_graph_transforms s' 3) = Some 1
         \<and> map_option world_pose (world_transforms s' 1) = Some 5
         \<and> map_option world_pose (world_transforms s' 2) = Some 6
         \<and> map_option world_pose (world_transforms s' 3) = Some 15
         \<and> map_option world_pose (fst (get_world_transform s' 3)) = Some 15)
   \<and> (\<exists>ex. Option.bind parent_and_child (\<lambda>s. add_child translation_core 3 s 1 4)
         = Some (Inl ex))
   \<and> (\<exists>n0. \<forall>m\<ge>n0. \<exists>s' visited.
         Option.bind parent_and_child (\<lambda>s. add_child translation_core m s 1 3)
           = Some (Inr (True, s', visited)))"
proof -
  define s4 :: "(int, int) transform_system" where "s4 =
     \<lparr>scene_graph_transforms =
        [1 \<mapsto> \<lparr>get_entity = 1, local_pose = 5, local_scale = 1, parent = 0, children = [2]\<rparr>,
         2 \<mapsto> \<lparr>get_entity = 2, local_pose = 1, local_scale = 1, parent = 1, children = []\<rparr>,
         3 \<mapsto> \<lparr>get_entity = 3, local_pose = 10, local_scale = 1, parent = 0, children = []\<rparr>],
      world_transforms =
        [1 \<mapsto> \<lparr>get_entity = 1, world_pose = 5\<rparr>,
         2 \<mapsto> \<lparr>get_entity = 2, world_pose = 6\<rparr>,
         3 \<mapsto> \<lparr>get_entity = 3, world_pose = 10\<rparr>]\<rparr>"
  have scene: "parent_and_child = Some s4"
    by (simp add: parent_and_child_eq s4_def)
  have rec1: "scene_graph_transforms s4 1
      = Some \<lparr>get_entity = 1, local_pose = 5, local_scale = 1, parent = 0, children = [2]\<rparr>"
    and rec2: "scene_graph_transforms s4 2
      = Some \<lparr>get_entity = 2, local_pose = 1, local_scale = 1, parent = 1, children = []\<rparr>"
    and rec3: "scene_graph_transforms s4 3
      = Some \<lparr>get_entity = 3, local_pose = 10, local_scale = 1, parent = 0, children = []\<rparr>"
    by (simp_all add: s4_def)
  have kids: "kids s4 1 = [2]" "kids s4 3 = []"
    by (simp_all add: kids_def s4_def)
  have present: "fst (has_transform s4 1)" "fst (has_transform s4 3)"
    "\<not> fst (has_transform s4 4)"
    by (simp_all add: has_transform_def s4_def)
  have valid: "(1::entity) \<noteq> kInvalidEntity" "(3::entity) \<noteq> kInvalidEntity"
    by (simp_all add: kInvalidEntity_def)
  have "child_rel s4 \<subseteq> measure (\<lambda>x. 4 - unat x)"
    by (auto simp: child_rel_def kids_def s4_def split: if_splits)
  then have forest: "wf (child_rel s4)"
    by (rule wf_subset [OF wf_measure])
  have below: "(1::entity) \<notin> descendants s4 3"
  proof
    assume "1 \<in> descendants s4 3"
    then have "(1, 3) \<in> (child_rel s4)\<^sup>*" by (simp add: descendants_def)
    then show False
      by (cases rule: rtrancl.cases) (auto simp: child_rel_def kids)
  qed
  have poses: "one_level_pose translation_core (link translation_core s4 1 3) 1 = 5"
    "one_level_pose translation_core (link translation_core s4 1 3) 2 = 6"
    "one_level_pose translation_core (link translation_core s4 1 3) 3 = 15"
    by (simp_all add: one_level_pose_def link_scene_graph [OF rec1 rec3] scene_graph_at_def
          kInvalidEntity_def translation_core_def rec1 rec2)
  have mul: "pose_mul translation_core 10 5 = 15"
    by (simp add: translation_core_def)
  obtain s5 where ok: "add_child translation_core 3 s4 1 3 = Some (Inr (True, s5, [1, 2, 3]))"
    by (simp add: s4_def scene_simps)
  note inst = add_child_contract [of translation_core _ s4 1]
  have post: "map_option children (scene_graph_transforms s5 1) = Some (kids s4 1 @ [3])
      \<and> map_option parent (scene_graph_transforms s5 3) = Some 1
      \<and> (\<forall>x\<in>set [1, 2, 3]. map_option world_pose (world_transforms s5 x)
            = Some (one_level_pose translation_core (link translation_core s4 1 3) x))
      \<and> map_option world_pose (fst (get_world_transform s5 3))
            = Some (pose_mul translation_core 10 5)"
    using inst [of 3 3] ok rec1 rec3 by fastforce
  then have "map_option children (scene_graph_transforms s5 1) = Some [2, 3]"
    and "map_option parent (scene_graph_transforms s5 3) = Some 1"
    and "map_option world_pose (world_transforms s5 1) = Some 5"
    and "map_option world_pose (world_transforms s5 2) = Some 6"
    and "map_option world_pose (world_transforms s5 3) = Some 15"
    and "map_option world_pose (fst (get_world_transform s5 3)) = Some 15"
    by (simp_all add: kids poses mul)
  with ok have a: "\<exists>s'. add_child translation_core 3 s4 1 3 = Some (Inr (True, s', [1, 2, 3]))
         \<and> map_option children (scene_graph_transforms s' 1) = Some [2, 3]
         \<and> map_option parent (scene_graph_transforms s' 3) = Some 1
         \<and> map_option world_pose (world_transforms s' 1) = Some 5
         \<and> map_option world_pose (world_transforms s' 2) = Some 6
         \<and> map_option world_pose (world_transforms s' 3) = Some 15
         \<and> map_option world_pose (fst (get_world_transform s' 3)) = Some 15"
    by blast
  from inst [of 3 4] present
  have b: "\<exists>ex. add_child translation_core 3 s4 1 4 = Some (Inl ex)"
    by blast
  from inst [of 0 3] present valid forest below
  have c: "\<exists>n0. \<forall>m\<ge>n0. \<exists>s' visited.
      add_child translation_core m s4 1 3 = Some (Inr (True, s', visited))"
    by blast
  from a b c show ?thesis
    by (simp add: scene)
qed

section \<open>Erasing sets of entities\<close>

lemma erase_set_sel:
  "scene_graph_transforms (erase_set s A) x = (if x \<in> A then None else scene_graph_transforms s x)"
  "world_transforms (erase_set s A) x = (if x \<in> A then None else world_transforms s x)"
  by (simp_all add: erase_set_def)

lemma erase_set_empty: "erase_set s {} = s"
  by (simp add: erase_set_def)

lemma erase_set_erase_set: "erase_set (erase_set s A) B = erase_set s (A \<union> B)"
  by (auto simp: erase_set_def fun_eq_iff)

lemma erase_entity_erase_set: "erase_entity (erase_set s A) e = erase_set s (insert e A)"
  by (auto simp: erase_set_def erase_entity_def fun_eq_iff)

lemma erase_set_scene_graph_at:
  "e \<in> A \<Longrightarrow> erase_set (snd (scene_graph_at M s e)) A = erase_set s A"
  by (auto simp: erase_set_def scene_graph_at_def fun_eq_iff split: option.splits)

lemma kids_erase_set: "kids (erase_set s A) x = (if x \<in> A then [] else kids s x)"
  by (simp add: kids_def erase_set_sel)

lemma kids_erase_entity: "kids (erase_entity s e) x = (if x = e then [] else kids s x)"
  by (simp add: kids_def erase_entity_sel)

lemma kids_scene_graph_at: "kids (snd (scene_graph_at M s e)) = kids s"
  by (auto simp: kids_def scene_graph_at_snd new_scene_graph_component_def fun_eq_iff
        split: option.splits)

section \<open>Descendants\<close>

lemma descendants_unfold:
  "descendants s e = insert e (\<Union>c\<in>set (kids s e). descendants s c)"
proof (intro set_eqI iffI)
  fix x
  assume "x \<in> descendants s e"
  then have "(x, e) \<in> (child_rel s)\<^sup>*" by (simp add: descendants_def)
  then show "x \<in> insert e (\<Union>c\<in>set (kids s e). descendants s c)"
    by (cases rule: rtranclE) (auto simp: descendants_def child_rel_def)
next
  fix x
  assume "x \<in> insert e (\<Union>c\<in>set (kids s e). descendants s c)"
  then show "x \<in> descendants s e"
    by (auto simp: descendants_def child_rel_def intro: rtrancl_into_rtrancl)
qed

lemma descendants_self: "e \<in> descendants s e"
  by (simp add: descendants_def)

lemma descendants_closed:
  assumes closed: "\<And>x. x \<in> A \<Longrightarrow> set (kids s x) \<subseteq> A" and e: "e \<in> A"
  shows "descendants s e \<subseteq> A"
proof
  fix x
  assume "x \<in> descendants s e"
  then have "(x, e) \<in> (child_rel s)\<^sup>*" by (simp add: descendants_def)
  then show "x \<in> A"
  proof (induction rule: converse_rtrancl_induct)
    case base
    show ?case by (rule e)
  next
    case (step y z)
    then show ?case using closed by (auto simp: child_rel_def)
  qed
qed

section \<open>The loop, with the elements it has gone through\<close>

lemma for_each_accumulate:
  assumes step: "\<And>x t t'. x \<in> set xs \<Longrightarrow> I t \<Longrightarrow> f x t = Some t' \<Longrightarrow> I t' \<and> g t' = g t \<union> h x"
  shows "I s \<Longrightarrow> for_each f xs s = Some s' \<Longrightarrow> I s' \<and> g s' = g s \<union> (\<Union>x\<in>set xs. h x)"
  using step
proof (induction xs arbitrary: s)
  case Nil
  then show ?case by simp
next
  case (Cons x xs)
  from Cons.prems(2) obtain t where t: "f x s = Some t" and rest: "for_each f xs t = Some s'"
    by (auto split: option.splits)
  from Cons.prems(3) [of x s t] Cons.prems(1) t have It: "I t" and gt: "g t = g s \<union> h x"
    by auto
  have "I s' \<and> g s' = g t \<union> (\<Union>x\<in>set xs. h x)"
    by (rule Cons.IH [OF It rest]) (use Cons.prems(3) in auto)
  with gt show ?case by auto
qed

lemma for_each_returns:
  assumes ret: "\<And>x t. x \<in> set xs \<Longrightarrow> I t \<Longrightarrow> f x t \<noteq> None"
    and inv: "\<And>x t t'. I t \<Longrightarrow> f x t = Some t' \<Longrightarrow> I t'"
  shows "I s \<Longrightarrow> for_each f xs s \<noteq> None"
  using ret
proof (induction xs arbitrary: s)
  case Nil
  then show ?case by simp
next
  case (Cons x xs)
  from Cons.prems(2) [of x s] Cons.prems(1) obtain t where t: "f x s = Some t" by auto
  with inv Cons.prems(1) have "I t" by blast
  then have "for_each f xs t \<noteq> None"
    by (rule Cons.IH) (use Cons.prems(2) in auto)
  with t show ?case by simp
qed

section \<open>What destroy_recursive erases\<close>

lemma destroy_recursive_erases:
  "destroy_recursive M n (t, l) e = Some (t', l')
     \<Longrightarrow> \<exists>new. l' = l @ new \<and> new \<noteq> [] \<and> last new = e \<and> t' = erase_set t (set new)"
proof (induction n arbitrary: t l e t' l')
  case 0
  then show ?case by (simp add: destroy_recursive.simps)
next
  case (Suc n)
  let ?s1 = "snd (scene_graph_at M t e)"
  from Suc.prems obtain s2 erased where
    loop: "for_each (\<lambda>x u. destroy_recursive M n u x) (kids t e) (?s1, l) = Some (s2, erased)"
    and res: "t' = erase_entity s2 e" "l' = erased @ [e]"
    unfolding destroy_recursive_unfold by (auto split: option.splits)
  have "\<exists>new. snd (s2, erased) = l @ new \<and> fst (s2, erased) = erase_set ?s1 (set new)"
  proof (rule for_each_invariant
      [where I = "\<lambda>u. \<exists>new. snd u = l @ new \<and> fst u = erase_set ?s1 (set new)", OF _ _ loop])
    show "\<exists>new. snd (?s1, l) = l @ new \<and> fst (?s1, l) = erase_set ?s1 (set new)"
      by (simp add: erase_set_empty)
  next
    fix x u u'
    assume "\<exists>new. snd u = l @ new \<and> fst u = erase_set ?s1 (set new)"
      and "destroy_recursive M n u x = Some u'"
    then obtain new where new: "snd u = l @ new" "fst u = erase_set ?s1 (set new)"
      and call: "destroy_recursive M n (fst u, snd u) x = Some (fst u', snd u')"
      by (cases u; cases u') auto
    from Suc.IH [OF call] obtain new' where
      "snd u' = snd u @ new'" "fst u' = erase_set (fst u) (set new')"
      by blast
    with new have "snd u' = l @ (new @ new') \<and> fst u' = erase_set ?s1 (set (new @ new'))"
      by (simp add: erase_set_erase_set)
    then show "\<exists>new. snd u' = l @ new \<and> fst u' = erase_set ?s1 (set new)"
      by blast
  qed
  then obtain new where new: "erased = l @ new" "s2 = erase_set ?s1 (set new)"
    by auto
  have "t' = erase_set t (set (new @ [e]))"
    using erase_set_scene_graph_at [of e "insert e (set new)" M t]
    by (simp add: res new erase_entity_erase_set)
  then have "l' = l @ (new @ [e]) \<and> new @ [e] \<noteq> [] \<and> last (new @ [e]) = e
      \<and> t' = erase_set t (set (new @ [e]))"
    by (simp add: res new)
  then show ?case by blast
qed

lemma children_first_snoc:
  "children_first s0 l \<Longrightarrow> set (kids s0 e) \<subseteq> set l \<Longrightarrow> children_first s0 (l @ [e])"
  by (auto simp: children_first_def nth_append less_Suc_eq)

lemma destroying_scene_graph_at:
  "destroying s0 (t, l) \<Longrightarrow> destroying s0 (snd (scene_graph_at M t e), l)"
  by (simp add: destroying_def kids_scene_graph_at)

lemma destroying_descendants:
  "destroying s0 (t, l) \<Longrightarrow> e \<in> set l \<Longrightarrow> descendants s0 e \<subseteq> set l"
  by (rule descendants_closed) (auto simp: destroying_def)

lemma destroy_recursive_visits:
  "destroy_recursive M n u e = Some u' \<Longrightarrow> destroying s0 u
     \<Longrightarrow> destroying s0 u' \<and> set (snd u') = set (snd u) \<union> descendants s0 e"
proof (induction n arbitrary: u e u')
  case 0
  then show ?case by (simp add: destroy_recursive.simps)
next
  case (Suc n)
  obtain t l where u: "u = (t, l)" by (cases u)
  let ?s1 = "snd (scene_graph_at M t e)"
  from Suc.prems(1) obtain s2 erased where
    loop: "for_each (\<lambda>x v. destroy_recursive M n v x) (kids t e) (?s1, l) = Some (s2, erased)"
    and res: "u' = (erase_entity s2 e, erased @ [e])"
    unfolding u destroy_recursive_unfold by (auto split: option.splits)
  have start: "destroying s0 (?s1, l)"
    using Suc.prems(2) unfolding u by (rule destroying_scene_graph_at)
  have after: "destroying s0 (s2, erased)
      \<and> set (snd (s2, erased)) = set (snd (?s1, l)) \<union> (\<Union>c\<in>set (kids t e). descendants s0 c)"
    by (rule for_each_accumulate [where I = "destroying s0" and g = "\<lambda>v. set (snd v)", OF _ start loop])
       (rule Suc.IH)
  then have inv2: "destroying s0 (s2, erased)"
    and erased: "set erased = set l \<union> (\<Union>c\<in>set (kids t e). descendants s0 c)"
    by simp_all
  have kids_t: "kids t e = (if e \<in> set l then [] else kids s0 e)"
    using Suc.prems(2) by (simp add: u destroying_def)
  have all: "set erased \<union> {e} = set l \<union> descendants s0 e"
  proof (cases "e \<in> set l")
    case True
    with destroying_descendants [of s0 t l e] Suc.prems(2) descendants_self [of e s0]
    show ?thesis by (auto simp: erased kids_t u)
  next
    case False
    then show ?thesis
      using descendants_unfold [of s0 e] by (simp add: erased kids_t)
  qed
  have sub: "set (kids s0 e) \<subseteq> set erased"
  proof (cases "e \<in> set l")
    case True
    with inv2 erased show ?thesis
      using Suc.prems(2) by (auto simp: destroying_def u)
  next
    case False
    then show ?thesis
      using descendants_self by (auto simp: erased kids_t)
  qed
  have "destroying s0 (erase_entity s2 e, erased @ [e])"
    unfolding destroying_def
  proof (intro conjI)
    show "\<forall>x. kids (fst (erase_entity s2 e, erased @ [e])) x =
           (if x \<in> set (snd (erase_entity s2 e, erased @ [e])) then [] else kids s0 x)"
      using inv2 by (simp add: destroying_def kids_erase_entity)
    show "\<forall>x\<in>set (snd (erase_entity s2 e, erased @ [e])).
           set (kids s0 x) \<subseteq> set (snd (erase_entity s2 e, erased @ [e]))"
      using inv2 sub by (auto simp: destroying_def)
    show "children_first s0 (snd (erase_entity s2 e, erased @ [e]))"
      using inv2 sub by (simp add: destroying_def children_first_snoc)
  qed
  with all show ?case
    by (auto simp: res u)
qed

lemma destroy_recursive_returns:
  fixes s0 :: "('p, 'v) transform_system"
  assumes "wf (child_rel s0)"
  shows "\<exists>n0. \<forall>n\<ge>n0. \<forall>(t :: ('p, 'v) transform_system) l.
           (\<forall>x. kids t x = [] \<or> kids t x = kids s0 x)
             \<longrightarrow> destroy_recursive M n (t, l) e \<noteq> None"
  using assms
proof (induction e rule: wf_induct_rule)
  case (less e)
  let ?S = "\<lambda>t :: ('p, 'v) transform_system. \<forall>x. kids t x = [] \<or> kids t x = kids s0 x"
  have "\<exists>n. \<forall>m\<ge>n. \<forall>c\<in>set (kids s0 e).
          \<forall>t l. ?S t \<longrightarrow> destroy_recursive M m (t, l) c \<noteq> None"
    by (rule uniform_bound) (use less in \<open>auto simp: child_rel_def\<close>)
  then obtain n where n: "\<forall>m\<ge>n. \<forall>c\<in>set (kids s0 e).
          \<forall>t l. ?S t \<longrightarrow> destroy_recursive M m (t, l) c \<noteq> None" ..
  have "destroy_recursive M m (t, l) e \<noteq> None" if m: "m \<ge> Suc n" and S: "?S t" for m t l
  proof -
    from m obtain m' where m': "m = Suc m'" "m' \<ge> n" by (cases m) auto
    have sub: "set (kids t e) \<subseteq> set (kids s0 e)"
      using S by (metis empty_set empty_subsetI subset_refl)
    have "for_each (\<lambda>x v. destroy_recursive M m' v x) (kids t e)
            (snd (scene_graph_at M t e), l) \<noteq> None"
    proof (rule for_each_returns [where I = "\<lambda>v. ?S (fst v)"])
      fix x and v :: "('p, 'v) transform_system \<times> entity list"
      assume "x \<in> set (kids t e)" and "?S (fst v)"
      then show "destroy_recursive M m' v x \<noteq> None"
        using n m'(2) sub by (cases v) auto
    next
      fix x and v v' :: "('p, 'v) transform_system \<times> entity list"
      assume Sv: "?S (fst v)" and "destroy_recursive M m' v x = Some v'"
      then have "destroy_recursive M m' (fst v, snd v) x = Some (fst v', snd v')"
        by simp
      from destroy_recursive_erases [OF this] obtain new where
        "fst v' = erase_set (fst v) (set new)" by blast
      then show "?S (fst v')"
        using Sv by (auto simp: kids_erase_set)
    next
      show "?S (fst (snd (scene_graph_at M t e), l))"
        using S by (simp add: kids_scene_graph_at)
    qed
    then show ?thesis
      unfolding m'(1) destroy_recursive_unfold by (auto split: option.splits)
  qed
  then show ?case by blast
qed

section \<open>destroy\<close>

text \<open>
  C4. \<^verbatim>\<open>destroy(e)\<close> throws an invalid-argument error exactly when \<open>e\<close> is the invalid
  sentinel or has no transform record. When it returns, the state is the old one without
  the scene-graph and world-transform records of \<open>e\<close> and of all its descendants along the
  children lists, and with every other record as it was; \<^verbatim>\<open>has_transform\<close> is false for
  \<open>e\<close> and every descendant; the erased entities are \<open>e\<close> and its descendants, \<open>e\<close> is erased
  last, and whenever an entity is erased its children have been erased before. It does
  return, for every sufficient stack depth, when the children relation is well-founded (in
  every reachable state it is, \<open>reachable_forest\<close>).
\<close>

theorem destroy_contract:
  fixes s :: "('p, 'v) transform_system"
  shows
  "((\<exists>ex. destroy M n s e = Some (Inl ex)) \<longleftrightarrow>
      (e = kInvalidEntity \<or> \<not> fst (has_transform s e)))
   \<and> (\<forall>s' erased. destroy M n s e = Some (Inr (s', erased)) \<longrightarrow>
         s' = erase_set s (descendants s e)
         \<and> (\<forall>x\<in>descendants s e. \<not> fst (has_transform s' x))
         \<and> set erased = descendants s e
         \<and> erased \<noteq> [] \<and> last erased = e
         \<and> children_first s erased)
   \<and> (e \<noteq> kInvalidEntity \<and> fst (has_transform s e) \<and> wf (child_rel s) \<longrightarrow>
        (\<exists>n0. \<forall>m\<ge>n0. \<exists>s' erased. destroy M m s e = Some (Inr (s', erased))))"
proof (intro conjI allI impI)
  show "(\<exists>ex. destroy M n s e = Some (Inl ex)) \<longleftrightarrow>
      (e = kInvalidEntity \<or> \<not> fst (has_transform s e))"
    by (auto simp: destroy_def)
next
  fix s' erased
  assume "destroy M n s e = Some (Inr (s', erased))"
  then have call: "destroy_recursive M n (s, []) e = Some (s', erased)"
    by (auto simp: destroy_def split: if_splits)
  from destroy_recursive_erases [OF call]
  have e1: "erased \<noteq> []" "last erased = e" "s' = erase_set s (set erased)"
    by auto
  have "destroying s (s, [])"
    by (simp add: destroying_def children_first_def)
  from destroy_recursive_visits [OF call this]
  have e2: "children_first s erased" "set erased = descendants s e"
    by (simp_all add: destroying_def)
  show "s' = erase_set s (descendants s e)" using e1 e2 by simp
  then show "\<forall>x\<in>descendants s e. \<not> fst (has_transform s' x)"
    by (simp add: has_transform_def erase_set_sel)
  show "set erased = descendants s e" by (rule e2)
  show "erased \<noteq> []" by (rule e1)
  show "last erased = e" by (rule e1)
  show "children_first s erased" by (rule e2)
next
  assume a: "e \<noteq> kInvalidEntity \<and> fst (has_transform s e) \<and> wf (child_rel s)"
  then have "wf (child_rel s)" by simp
  from destroy_recursive_returns [OF this, of M e]
  obtain n0 where "\<forall>n\<ge>n0. \<forall>(t :: ('p, 'v) transform_system) l.
      (\<forall>x. kids t x = [] \<or> kids t x = kids s x) \<longrightarrow> destroy_recursive M n (t, l) e \<noteq> None" ..
  then have "\<forall>m\<ge>n0. \<exists>s' erased. destroy M m s e = Some (Inr (s', erased))"
    using a by (auto simp: destroy_def)
  then show "\<exists>n0. \<forall>m\<ge>n0. \<exists>s' erased. destroy M m s e = Some (Inr (s', erased))" ..
qed

text \<open>
  An instance in the chain 1 - 2 - 3: \<^verbatim>\<open>destroy(2)\<close> erases 3, then 2, and keeps 1;
  entity 4 has no record and is refused; the chain is a forest.
\<close>

theorem destroy_contract_witness:
  "(\<exists>s'. Option.bind grandchild_scene (\<lambda>s. destroy translation_core 3 s 2)
            = Some (Inr (s', [3, 2]))
         \<and> \<not> fst (has_transform s' 2) \<and> \<not> fst (has_transform s' 3)
         \<and> fst (has_transform s' 1))
   \<and> (\<exists>ex. Option.bind grandchild_scene (\<lambda>s. destroy translation_core 3 s 4) = Some (Inl ex))
   \<and> (\<exists>n0. \<forall>m\<ge>n0. \<exists>s' erased.
         Option.bind grandchild_scene (\<lambda>s. destroy translation_core m s 2)
           = Some (Inr (s', erased)))"
proof -
  define s5 :: "(int, int) transform_system" where "s5 =
     \<lparr>scene_graph_transforms =
        [1 \<mapsto> \<lparr>get_entity = 1, local_pose = 5, local_scale = 1, parent = 0, children = [2]\<rparr>,
         2 \<mapsto> \<lparr>get_entity = 2, local_pose = 1, local_scale = 1, parent = 1, children = [3]\<rparr>,
         3 \<mapsto> \<lparr>get_entity = 3, local_pose = 10, local_scale = 1, parent = 2, children = []\<rparr>],
      world_transforms =
        [1 \<mapsto> \<lparr>get_entity = 1, world_pose = 5\<rparr>,
         2 \<mapsto> \<lparr>get_entity = 2, world_pose = 6\<rparr>,
         3 \<mapsto> \<lparr>get_entity = 3, world_pose = 11\<rparr>]\<rparr>"
  have scene: "grandchild_scene = Some s5"
    by (simp add: grandchild_scene_eq s5_def)
  have present: "fst (has_transform s5 1)" "fst (has_transform s5 2)"
    "\<not> fst (has_transform s5 4)"
    by (simp_all add: has_transform_def s5_def)
  have valid: "(2::entity) \<noteq> kInvalidEntity"
    by (simp add: kInvalidEntity_def)
  have "child_rel s5 \<subseteq> measure (\<lambda>x. 4 - unat x)"
    by (auto simp: child_rel_def kids_def s5_def split: if_splits)
  then have forest: "wf (child_rel s5)"
    by (rule wf_subset [OF wf_measure])
  obtain s6 where ok: "destroy translation_core 3 s5 2 = Some (Inr (s6, [3, 2]))"
    by (simp add: destroy_def has_transform_def kInvalidEntity_def s5_def
          destroy_recursive_numeral scene_graph_at_def erase_entity_def)
  note inst = destroy_contract [of translation_core _ s5]
  have post: "s6 = erase_set s5 (descendants s5 2)
      \<and> (\<forall>x\<in>descendants s5 2. \<not> fst (has_transform s6 x))
      \<and> set [3, 2] = descendants s5 2"
    using inst [of 3 2] ok by blast
  then have gone: "\<not> fst (has_transform s6 2)" "\<not> fst (has_transform s6 3)"
    by auto
  have kept: "fst (has_transform s6 1)"
  proof -
    from post have "s6 = erase_set s5 {3, 2}" by simp
    then show ?thesis
      using present(1) by (auto simp: has_transform_def erase_set_sel split: if_splits)
  qed
  from ok gone kept
  have a: "\<exists>s'. destroy translation_core 3 s5 2 = Some (Inr (s', [3, 2]))
         \<and> \<not> fst (has_transform s' 2) \<and> \<not> fst (has_transform s' 3)
         \<and> fst (has_transform s' 1)"
    by blast
  from inst [of 3 4] present
  have b: "\<exists>ex. destroy translation_core 3 s5 4 = Some (Inl ex)"
    by blast
  from inst [of 0 2] present valid forest
  have c: "\<exists>n0. \<forall>m\<ge>n0. \<exists>s' erased. destroy translation_core m s5 2 = Some (Inr (s', erased))"
    by blast
  from a b c show ?thesis
    by (simp add: scene)
qed

section \<open>The reachable states are forests\<close>

lemma recalculate_kids:
  assumes "recalculate_world_transform M n (s, l) c = Some (s', l')"
  shows "kids s' = kids s"
proof -
  from recalculate_result [OF assms] obtain xs where
    s': "s' = foldl (\<lambda>t x. snd (recalculate_node M t x)) s xs" by blast
  show ?thesis
    unfolding s'
    by (rule foldl_invariant [where I = "\<lambda>t. kids t = kids s"])
       (simp_all add: recalculate_node_kids)
qed

lemma child_rel_mono:
  "(\<And>x. set (kids t x) \<subseteq> set (kids s x)) \<Longrightarrow> child_rel t \<subseteq> child_rel s"
  by (auto simp: child_rel_def)

lemma subtree_preorder_child:
  assumes "subtree_preorder (Suc n) k e \<noteq> None" and "c \<in> set (k e)"
  shows "subtree_preorder n k c \<noteq> None"
proof
  assume "subtree_preorder n k c = None"
  with assms(2) have "those (map (subtree_preorder n k) (k e)) = None"
    by (rule those_map_None)
  with assms(1) show False by simp
qed

lemma kids_update_node:
  "kids (update_node s e f) x =
     (if x = e then (case scene_graph_transforms s e of None \<Rightarrow> [] | Some node \<Rightarrow> children (f node))
      else kids s x)"
  by (simp add: kids_def update_node_sel split: option.splits)

lemma kids_update_node_subset:
  assumes sub: "\<And>node. set (children (f node)) \<subseteq> set (children node)"
  shows "set (kids (update_node s e f) x) \<subseteq> set (kids s x)"
proof (cases "x = e")
  case False
  then have "kids (update_node s e f) x = kids s x"
    by (simp add: kids_update_node)
  then show ?thesis by (simp only: subset_refl)
next
  case True
  show ?thesis
  proof (cases "scene_graph_transforms s e")
    case None
    then have "kids (update_node s e f) x = []"
      by (simp add: True kids_update_node)
    then show ?thesis by (simp only: list.set empty_subsetI)
  next
    case (Some node)
    then have "kids (update_node s e f) x = children (f node)"
      by (simp add: True kids_update_node)
    moreover from Some have "kids s x = children node"
      by (simp add: True kids_def)
    ultimately show ?thesis using sub [of node] by (simp only:)
  qed
qed


lemma subtree_preorder_descends:
  assumes "(x, e) \<in> {(c, p). c \<in> set (k p)}\<^sup>+"
  shows "subtree_preorder n k e \<noteq> None \<Longrightarrow> \<exists>m<n. subtree_preorder m k x \<noteq> None"
  using assms
proof (induction arbitrary: n rule: trancl_induct)
  case (base y)
  then obtain n' where n: "n = Suc n'" by (cases n) auto
  with base have "subtree_preorder n' k x \<noteq> None"
    using subtree_preorder_child [of n' k y x] by simp
  with n show ?case by blast
next
  case (step y z)
  then obtain n' where n: "n = Suc n'" by (cases n) auto
  with step have "subtree_preorder n' k y \<noteq> None"
    using subtree_preorder_child [of n' k z y] by simp
  from step.IH [OF this] obtain m where "m < n'" "subtree_preorder m k x \<noteq> None" by blast
  with n show ?case by (intro exI [of _ m]) simp
qed

lemma subtree_preorder_cycle:
  assumes "(e, e) \<in> {(c, p). c \<in> set (k p)}\<^sup>+"
  shows "subtree_preorder n k e = None"
proof (induction n rule: less_induct)
  case (less n)
  show ?case
  proof (rule ccontr)
    assume a: "subtree_preorder n k e \<noteq> None"
    from subtree_preorder_descends [OF assms a]
    obtain m where "m < n" and "subtree_preorder m k e \<noteq> None" by blast
    with less.IH [of m] show False by simp
  qed
qed

lemma recalculate_cycle:
  assumes "(e, e) \<in> (child_rel s)\<^sup>+"
  shows "recalculate_world_transform M n (s, l) e = None"
proof -
  have "(e, e) \<in> {(c, p). c \<in> set (kids s p)}\<^sup>+"
    using assms by (simp add: child_rel_def)
  from subtree_preorder_cycle [OF this, of n] show ?thesis
    by (simp add: recalculate_preorder)
qed

lemma reachable_forest: "reachable M s \<Longrightarrow> wf (child_rel s)"
proof (induction rule: reachable.induct)
  case reachable_init
  show ?case by (simp add: child_rel_def kids_def empty_transform_system_def)
next
  case (reachable_create s n e lp ls b s')
  define t where "t =
    (update_node (update_node
       (s\<lparr>scene_graph_transforms :=
            (scene_graph_transforms s)(e \<mapsto> new_scene_graph_component M e)\<rparr>)
       e (\<lambda>node. node\<lparr>local_pose := lp\<rparr>)) e (\<lambda>node. node\<lparr>local_scale := ls\<rparr>))
     \<lparr>world_transforms := (world_transforms s)(e \<mapsto> new_world_transform_component M e)\<rparr>"
  obtain v where "recalculate_world_transform M n (t, []) e = Some (s', v)"
    using reachable_create.hyps(2)
    by (auto simp: create_def Let_def t_def update_node_sel)
  then have "kids s' = kids t" by (rule recalculate_kids)
  moreover have "set (kids t x) \<subseteq> set (kids s x)" for x
  proof -
    have "kids t x = (if x = e then [] else kids s x)"
      by (simp add: kids_def t_def update_node_sel new_scene_graph_component_def)
    then show ?thesis by (simp split: if_splits)
  qed
  ultimately have "child_rel s' \<subseteq> child_rel s"
    by (intro child_rel_mono) simp
  with reachable_create.IH show ?case by (rule wf_subset)
next
  case (reachable_add_child s n p c b s' visited)
  from reachable_add_child.hyps(2)
  have rec: "recalculate_world_transform M n (link M s p c, []) p = Some (s', visited)"
    and "fst (has_transform s p)" "fst (has_transform s c)"
    by (auto simp: add_child_def split: if_splits)
  then obtain np nc where
    np: "scene_graph_transforms s p = Some np" and nc: "scene_graph_transforms s c = Some nc"
    by (auto simp: has_transform_def split: if_splits)
  have rel: "child_rel (link M s p c) = insert (c, p) (child_rel s)"
    by (rule link_child_rel [OF np nc])
  have "(p, c) \<notin> (child_rel s)\<^sup>*"
  proof
    assume "(p, c) \<in> (child_rel s)\<^sup>*"
    then have "(p, c) \<in> (child_rel (link M s p c))\<^sup>*"
      unfolding rel by (rule rtrancl_mono [THEN subsetD, rotated]) auto
    moreover have "(c, p) \<in> child_rel (link M s p c)"
      by (simp add: rel)
    ultimately have "(p, p) \<in> (child_rel (link M s p c))\<^sup>+"
      by (rule rtrancl_into_trancl1)
    from recalculate_cycle [OF this, of M n "[]"] rec show False by simp
  qed
  with reachable_add_child.IH have "wf (child_rel (link M s p c))"
    by (simp add: rel)
  moreover have "child_rel s' = child_rel (link M s p c)"
    using recalculate_kids [OF rec] by (simp add: child_rel_def)
  ultimately show ?case by simp
next
  case (reachable_remove_parent s n c s')
  show ?case
  proof (cases "parent (fst (scene_graph_at M s c)) \<noteq> kInvalidEntity")
    case False
    then have "s' = snd (scene_graph_at M s c)"
      using reachable_remove_parent.hyps(2)
      by (simp add: remove_parent_def case_prod_beta)
    then have "child_rel s' = child_rel s"
      by (simp add: child_rel_def kids_scene_graph_at)
    with reachable_remove_parent.IH show ?thesis by simp
  next
    case True
    define q where "q = parent (fst (scene_graph_at M s c))"
    define t where "t =
      update_node
        (update_node (snd (scene_graph_at M (snd (scene_graph_at M s c)) q)) q
           (\<lambda>node. node\<lparr>children := removeAll c (children node)\<rparr>))
        c (\<lambda>node. node\<lparr>parent := kInvalidEntity\<rparr>)"
    obtain v where "recalculate_world_transform M n (t, []) c = Some (s', v)"
      using reachable_remove_parent.hyps(2) True
      by (auto simp: remove_parent_def case_prod_beta Let_def t_def q_def)
    then have "kids s' = kids t" by (rule recalculate_kids)
    moreover have "set (kids t x) \<subseteq> set (kids s x)" for x
    proof -
      let ?s2 = "snd (scene_graph_at M (snd (scene_graph_at M s c)) q)"
      let ?s3 = "update_node ?s2 q (\<lambda>node. node\<lparr>children := removeAll c (children node)\<rparr>)"
      have "set (kids t x) \<subseteq> set (kids ?s3 x)"
        unfolding t_def by (rule kids_update_node_subset) simp
      also have "\<dots> \<subseteq> set (kids ?s2 x)"
        by (rule kids_update_node_subset) auto
      also have "kids ?s2 = kids s"
        by (simp add: kids_scene_graph_at)
      finally show ?thesis .
    qed
    ultimately have "child_rel s' \<subseteq> child_rel s"
      by (intro child_rel_mono) simp
    with reachable_remove_parent.IH show ?thesis by (rule wf_subset)
  qed
next
  case (reachable_destroy s n e s' erased)
  from reachable_destroy.hyps(2)
  have "destroy_recursive M n (s, []) e = Some (s', erased)"
    by (auto simp: destroy_def split: if_splits)
  from destroy_recursive_erases [OF this] obtain new where "s' = erase_set s (set new)"
    by blast
  then have "child_rel s' \<subseteq> child_rel s"
    by (intro child_rel_mono) (simp add: kids_erase_set)
  with reachable_destroy.IH show ?case by (rule wf_subset)
qed

section \<open>The operations return in reachable states\<close>

lemma destroy_returns_reachable:
  assumes "reachable M s" and "e \<noteq> kInvalidEntity" and "fst (has_transform s e)"
  shows "\<exists>n0. \<forall>m\<ge>n0. \<exists>erased.
           destroy M m s e = Some (Inr (erase_set s (descendants s e), erased))"
proof -
  have "wf (child_rel s)" using assms(1) by (rule reachable_forest)
  from destroy_recursive_returns [OF this, of M e]
  obtain n0 where n0: "\<forall>n\<ge>n0. \<forall>t l.
      (\<forall>x. kids t x = [] \<or> kids t x = kids s x) \<longrightarrow> destroy_recursive M n (t, l) e \<noteq> None" ..
  have "\<exists>erased. destroy M m s e = Some (Inr (erase_set s (descendants s e), erased))"
    if "m \<ge> n0" for m
  proof -
    from n0 that obtain s' erased where
      call: "destroy_recursive M m (s, []) e = Some (s', erased)"
      by fastforce
    from destroy_recursive_erases [OF call] have "s' = erase_set s (set erased)" by auto
    moreover have "destroying s (s, [])"
      by (simp add: destroying_def children_first_def)
    from destroy_recursive_visits [OF call this] have "set erased = descendants s e" by simp
    ultimately show ?thesis
      using call assms(2,3) by (auto simp: destroy_def)
  qed
  then show ?thesis by blast
qed

lemma add_child_returns_reachable:
  assumes "reachable M s" and "p \<noteq> kInvalidEntity" and "c \<noteq> kInvalidEntity"
    and "fst (has_transform s p)" and "fst (has_transform s c)"
    and "p \<notin> descendants s c"
  shows "\<exists>n0. \<forall>m\<ge>n0. \<exists>s' visited. add_child M m s p c = Some (Inr (True, s', visited))"
proof -
  from assms(4,5) obtain np nc where
    np: "scene_graph_transforms s p = Some np" and nc: "scene_graph_transforms s c = Some nc"
    by (auto simp: has_transform_def split: if_splits)
  have "wf (child_rel s)" using assms(1) by (rule reachable_forest)
  then have "wf (child_rel (link M s p c))"
    using assms(6) by (simp add: link_child_rel [OF np nc] descendants_def)
  from recalculate_returns [OF this, of M "[]" p]
  obtain n0 where "\<forall>m\<ge>n0. \<exists>s' visited.
      recalculate_world_transform M m (link M s p c, []) p = Some (s', visited)" ..
  then have "\<forall>m\<ge>n0. \<exists>s' visited. add_child M m s p c = Some (Inr (True, s', visited))"
    using assms(2-5) by (auto simp: add_child_def)
  then show ?thesis ..
qed

text \<open>
  A cycle is the only way for \<^verbatim>\<open>add_child\<close> not to return in a reachable state: when the
  parent is the child or below it, the recomputation runs into itself at every depth.
\<close>

lemma add_child_cycle_never_returns:
  assumes "p \<noteq> kInvalidEntity" and "c \<noteq> kInvalidEntity"
    and "fst (has_transform s p)" and "fst (has_transform s c)"
    and "p \<in> descendants s c"
  shows "add_child M n s p c = None"
proof -
  from assms(3,4) obtain np nc where
    np: "scene_graph_transforms s p = Some np" and nc: "scene_graph_transforms s c = Some nc"
    by (auto simp: has_transform_def split: if_splits)
  have rel: "child_rel (link M s p c) = insert (c, p) (child_rel s)"
    by (rule link_child_rel [OF np nc])
  from assms(5) have "(p, c) \<in> (child_rel s)\<^sup>*" by (simp add: descendants_def)
  then have "(p, c) \<in> (child_rel (link M s p c))\<^sup>*"
    unfolding rel by (rule rtrancl_mono [THEN subsetD, rotated]) auto
  moreover have "(c, p) \<in> child_rel (link M s p c)"
    by (simp add: rel)
  ultimately have "(p, p) \<in> (child_rel (link M s p c))\<^sup>+"
    by (rule rtrancl_into_trancl1)
  from recalculate_cycle [OF this, of M n "[]"] show ?thesis
    using assms(1-4) by (simp add: add_child_def)
qed

end
